theory Spec2Isabelle
  imports Complex_Main "HOL-Library.Char_ord" "HOL-Library.List_Lexorder"
begin

section \<open>Common Python notions\<close>

text \<open>
  Times and durations are Python floats in the source.  They are modelled as exact
  rationals: comparisons, sums, differences and quotients are the mathematical ones.
  The exception is \<open>format_time_srt\<close>, whose float product is rounded as binary64 rounds it.
  Exceptions are values of \<open>py_error\<close>; a function that can raise returns
  \<open>py_error + 'a\<close> with \<open>Inl\<close> for the exception.
\<close>

datatype py_error =
    KeyError string
  | IndexError
  | ZeroDivisionError
  | TypeError
  | AttributeError
  | OverflowError
  | OSError string

text \<open>\<open>int(x)\<close> on a float: truncation toward zero.\<close>

definition py_int :: "rat \<Rightarrow> int" where
  "py_int x = (if 0 \<le> x then \<lfloor>x\<rfloor> else \<lceil>x\<rceil>)"

text \<open>Rounding to the nearest integer, ties to the even one.\<close>

definition py_round :: "rat \<Rightarrow> int" where
  "py_round x =
     (let f = \<lfloor>x\<rfloor>; r = x - of_int f
      in if r < 1/2 then f else if 1/2 < r then f + 1 else if even f then f else f + 1)"

text \<open>\<open>d[key]\<close> on a dict whose entry for \<open>key\<close> may be absent.\<close>

definition getitem :: "string \<Rightarrow> 'a option \<Rightarrow> py_error + 'a" where
  "getitem key v = (case v of None \<Rightarrow> Inl (KeyError key) | Some x \<Rightarrow> Inr x)"

text \<open>\<open>s.endswith(p)\<close>\<close>

definition endswith :: "'a list \<Rightarrow> 'a list \<Rightarrow> bool" where
  "endswith s p = (length p \<le> length s \<and> drop (length s - length p) s = p)"

text \<open>\<open>" ".join(ws)\<close>\<close>

fun join_space :: "string list \<Rightarrow> string" where
  "join_space [] = []"
| "join_space [w] = w"
| "join_space (w # v # ws) = w @ '' '' @ join_space (v # ws)"

section \<open>Caption grouping: \<open>utils/caption_overlay.py\<close>\<close>

text \<open>The value under the key \<open>text\<close>: a \<open>str\<close>, or any other JSON value (\<open>null\<close>, a number,
  a list, ...).\<close>

datatype text_value = Str string | NotStr

text \<open>
  A timed word as the JSON file holds it: a dict in which each of the keys
  \<open>text\<close>, \<open>start\<close>, \<open>end\<close> may be missing.  The values of \<open>start\<close> and \<open>end\<close> are numbers:
  \<open>load_captions\<close> checks that (lines 34-35) and the synthesiser emits floats.  The value
  of \<open>text\<close> is checked nowhere.
\<close>

record word_info =
  w_text :: "text_value option"
  w_start :: "rat option"
  w_end :: "rat option"

text \<open>A TimedWord of the data model, and the dict that carries it.\<close>

record timed_word =
  tw_text :: string
  tw_start :: rat
  tw_end :: rat

definition as_dict :: "timed_word \<Rightarrow> word_info" where
  "as_dict t = \<lparr>w_text = Some (Str (tw_text t)), w_start = Some (tw_start t), w_end = Some (tw_end t)\<rparr>"

text \<open>
  A caption block as appended to \<open>grouped_captions\<close>.  \<open>c_end\<close> is the value of
  \<open>final_group_end_time\<close>, which the source resets to \<open>None\<close> between groups.
  \<open>c_words\<close> is the list \<open>words_to_finalize\<close> that the source joins into \<open>c_text\<close>;
  it is kept beside the text so that a block's words can be counted.
\<close>

record caption =
  c_start :: rat
  c_end :: "rat option"
  c_text :: string
  c_words :: "string list"

definition mk_caption :: "rat \<Rightarrow> rat option \<Rightarrow> string list \<Rightarrow> caption" where
  "mk_caption s e ws = \<lparr>c_start = s, c_end = e, c_text = join_space ws, c_words = ws\<rparr>"

record group_state =
  grouped_captions :: "caption list"
  current_group_words :: "string list"
  current_start_time :: "rat option"
  last_word_end_time :: "rat option"

definition punctuation_marks :: "string list" where
  "punctuation_marks = [''.'', '','', ''!'', ''?'', '';'', '':'']"

text \<open>One iteration of the \<open>for i, word_info in enumerate(timed_words)\<close> loop, lines 71-128,
  once the three fields of the word have been read.\<close>

definition group_step ::
  "int \<Rightarrow> rat \<Rightarrow> group_state \<Rightarrow> string \<Rightarrow> rat \<Rightarrow> rat \<Rightarrow> bool \<Rightarrow> group_state" where
  "group_step max_words_per_caption max_duration_per_caption st word_text word_start word_end is_last_word =
    (let cur = current_group_words st;
         start0 = (if cur = [] then Some word_start else current_start_time st);
         exceeds_word_limit = (int (length cur) \<ge> max_words_per_caption);
         start1 = (case start0 of None \<Rightarrow> word_start | Some t \<Rightarrow> t);
         exceeds_duration = (word_end - start1 > max_duration_per_caption);
         ends_with_punctuation = (\<exists>p \<in> set punctuation_marks. endswith word_text p);
         should_finalize = (cur \<noteq> [] \<and>
            (exceeds_word_limit \<or> exceeds_duration \<or> ends_with_punctuation \<or> is_last_word))
     in if should_finalize then
          (let include_word = (\<not> (exceeds_word_limit \<or> exceeds_duration) \<or> is_last_word);
               words_to_finalize = (if include_word then cur @ [word_text] else cur);
               final_group_end_time = (if include_word then Some word_end else last_word_end_time st);
               st1 = \<lparr>grouped_captions =
                        grouped_captions st @ [mk_caption start1 final_group_end_time words_to_finalize],
                      current_group_words = [],
                      current_start_time = None,
                      last_word_end_time = None\<rparr>
           in if \<not> is_last_word \<and> (exceeds_word_limit \<or> exceeds_duration)
              then st1\<lparr>current_group_words := [word_text],
                       current_start_time := Some word_start,
                       last_word_end_time := Some word_end\<rparr>
              else st1)
        else
          st\<lparr>current_group_words := cur @ [word_text],
             current_start_time := (if cur = [] then Some word_start else Some start1),
             last_word_end_time := Some word_end\<rparr>)"

text \<open>The loop.  The word at index \<open>i\<close> is the last one, \<open>i == len(timed_words) - 1\<close>,
  exactly when no word follows it.  A missing key raises \<open>KeyError\<close> out of the function at
  lines 72-74, and \<open>word_text.endswith\<close>, line 85, raises \<open>AttributeError\<close> when the text is
  not a \<open>str\<close>; nothing between the three reads and that call can raise.\<close>

fun group_loop :: "int \<Rightarrow> rat \<Rightarrow> word_info list \<Rightarrow> group_state \<Rightarrow> py_error + group_state" where
  "group_loop mw md [] st = Inr st"
| "group_loop mw md (w # ws) st =
    (case getitem ''text'' (w_text w) of Inl e \<Rightarrow> Inl e | Inr word_text \<Rightarrow>
     case getitem ''start'' (w_start w) of Inl e \<Rightarrow> Inl e | Inr word_start \<Rightarrow>
     case getitem ''end'' (w_end w) of Inl e \<Rightarrow> Inl e | Inr word_end \<Rightarrow>
     case word_text of
       NotStr \<Rightarrow> Inl AttributeError
     | Str word_str \<Rightarrow>
         group_loop mw md ws (group_step mw md st word_str word_start word_end (ws = [])))"

text \<open>Lines 130-139: the safeguard after the loop.\<close>

definition group_finish :: "group_state \<Rightarrow> caption list" where
  "group_finish st =
    (case (current_start_time st, last_word_end_time st) of
       (Some s, Some e) \<Rightarrow>
          if current_group_words st \<noteq> []
          then grouped_captions st @ [mk_caption s (Some e) (current_group_words st)]
          else grouped_captions st
     | _ \<Rightarrow> grouped_captions st)"

definition group_words_into_captions ::
  "word_info list \<Rightarrow> int \<Rightarrow> rat \<Rightarrow> py_error + caption list" where
  "group_words_into_captions timed_words max_words_per_caption max_duration_per_caption =
    (case timed_words of
       [] \<Rightarrow> Inr []
     | w0 # _ \<Rightarrow>
        (case getitem ''start'' (w_start w0) of Inl e \<Rightarrow> Inl e | Inr s0 \<Rightarrow>
         case getitem ''end'' (w_end w0) of Inl e \<Rightarrow> Inl e | Inr e0 \<Rightarrow>
         case group_loop max_words_per_caption max_duration_per_caption timed_words
                \<lparr>grouped_captions = [], current_group_words = [],
                 current_start_time = Some s0, last_word_end_time = Some e0\<rparr>
         of Inl e \<Rightarrow> Inl e | Inr st \<Rightarrow> Inr (group_finish st)))"

text \<open>The state in which \<open>group_words_into_captions\<close> enters its loop.\<close>

definition init_state :: "rat \<Rightarrow> rat \<Rightarrow> group_state" where
  "init_state s0 e0 = \<lparr>grouped_captions = [], current_group_words = [],
                 current_start_time = Some s0, last_word_end_time = Some e0\<rparr>"

text \<open>A word dict has all three keys.\<close>

definition has_fields :: "word_info \<Rightarrow> bool" where
  "has_fields w = (w_text w \<noteq> None \<and> w_start w \<noteq> None \<and> w_end w \<noteq> None)"

text \<open>A word dict is usable by the grouper when all three keys are present and the text is
  a \<open>str\<close>.\<close>

definition usable_word :: "word_info \<Rightarrow> bool" where
  "usable_word w = (has_fields w \<and> w_text w \<noteq> Some NotStr)"

text \<open>The block that a run of consecutive words makes: it starts where the first word
  starts, ends where the last word ends and carries the words' texts.\<close>

definition block_of_run :: "timed_word list \<Rightarrow> caption" where
  "block_of_run r = mk_caption (tw_start (hd r)) (Some (tw_end (last r))) (map tw_text r)"

subsection \<open>Example word streams\<close>

text \<open>The four words of the specification's grouping example.\<close>

definition bonjour :: "timed_word list" where
  "bonjour =
     [\<lparr>tw_text = ''Bonjour'', tw_start = 0, tw_end = 2/5\<rparr>,
      \<lparr>tw_text = ''tout'', tw_start = 2/5, tw_end = 3/5\<rparr>,
      \<lparr>tw_text = ''le'', tw_start = 3/5, tw_end = 7/10\<rparr>,
      \<lparr>tw_text = ''monde.'', tw_start = 7/10, tw_end = 6/5\<rparr>]"

text \<open>Four words sorted by start, each with \<open>end \<ge> start \<ge> 0\<close>, the second of which
  is still being spoken when the third and fourth are.\<close>

definition overlapping_words :: "timed_word list" where
  "overlapping_words =
     [\<lparr>tw_text = ''a'', tw_start = 0, tw_end = 1/2\<rparr>,
      \<lparr>tw_text = ''b,'', tw_start = 1/2, tw_end = 3\<rparr>,
      \<lparr>tw_text = ''c'', tw_start = 1, tw_end = 3/2\<rparr>,
      \<lparr>tw_text = ''d.'', tw_start = 3/2, tw_end = 2\<rparr>]"

text \<open>Five short words without punctuation, one second in all.\<close>

definition five_words :: "timed_word list" where
  "five_words =
     [\<lparr>tw_text = ''a'', tw_start = 0, tw_end = 1/5\<rparr>,
      \<lparr>tw_text = ''b'', tw_start = 1/5, tw_end = 2/5\<rparr>,
      \<lparr>tw_text = ''c'', tw_start = 2/5, tw_end = 3/5\<rparr>,
      \<lparr>tw_text = ''d'', tw_start = 3/5, tw_end = 4/5\<rparr>,
      \<lparr>tw_text = ''e'', tw_start = 4/5, tw_end = 1\<rparr>]"

subsection \<open>Loop invariants of the grouper\<close>

text \<open>All words seen so far: those of the closed blocks, then those of the open group.\<close>

definition flat_words :: "group_state \<Rightarrow> string list" where
  "flat_words st = concat (map c_words (grouped_captions st)) @ current_group_words st"

text \<open>An open group always has a start and an end time, so the safeguard after the loop
  never drops it.\<close>

definition group_ok :: "group_state \<Rightarrow> bool" where
  "group_ok st = (current_group_words st \<noteq> [] \<longrightarrow>
      (\<exists>s e. current_start_time st = Some s \<and> last_word_end_time st = Some e))"

text \<open>Block starts are sorted and bounded by \<open>b\<close>, the start of the word read last.\<close>

definition start_inv :: "group_state \<Rightarrow> rat \<Rightarrow> bool" where
  "start_inv st b =
     (sorted (map c_start (grouped_captions st)) \<and>
      (\<forall>c \<in> set (grouped_captions st). c_start c \<le> b) \<and>
      (current_group_words st \<noteq> [] \<longrightarrow>
         (\<exists>s. current_start_time st = Some s \<and> s \<le> b \<and>
              (\<forall>c \<in> set (grouped_captions st). c_start c \<le> s))))"

text \<open>Block ends are numbers, sorted and bounded by \<open>b\<close>, the end of the word read last.\<close>

definition end_inv :: "group_state \<Rightarrow> rat \<Rightarrow> bool" where
  "end_inv st b =
     (\<exists>es. map c_end (grouped_captions st) = map Some es \<and> sorted es \<and>
        (\<forall>x \<in> set es. x \<le> b) \<and>
        (current_group_words st \<noteq> [] \<longrightarrow>
           (\<exists>e. last_word_end_time st = Some e \<and> e \<le> b \<and> (\<forall>x \<in> set es. x \<le> e))))"

text \<open>Every block, and the open group, ends no earlier than it starts.\<close>

definition span_inv :: "group_state \<Rightarrow> rat \<Rightarrow> bool" where
  "span_inv st b =
     ((\<forall>c \<in> set (grouped_captions st). \<exists>e. c_end c = Some e \<and> c_start c \<le> e) \<and>
      (current_group_words st \<noteq> [] \<longrightarrow>
         (\<exists>s e. current_start_time st = Some s \<and> last_word_end_time st = Some e \<and>
                s \<le> e \<and> s \<le> b)))"

text \<open>Before the last word is read, no block and no open group is over the word cap.\<close>

definition count_inv :: "int \<Rightarrow> group_state \<Rightarrow> bool" where
  "count_inv mw st =
     ((\<forall>c \<in> set (grouped_captions st). int (length (c_words c)) \<le> mw) \<and>
      int (length (current_group_words st)) \<le> mw)"

definition text_inv :: "caption list \<Rightarrow> bool" where
  "text_inv cs = (\<forall>c \<in> set cs. c_text c = join_space (c_words c))"

text \<open>The words read so far, \<open>seen\<close>, split into the runs of the closed blocks and the run
  \<open>r\<close> of the open group, whose times are those of its first and last word.\<close>

definition run_inv :: "group_state \<Rightarrow> timed_word list \<Rightarrow> bool" where
  "run_inv st seen =
     (\<exists>runs r. concat runs @ r = seen \<and> [] \<notin> set runs \<and>
        grouped_captions st = map block_of_run runs \<and>
        current_group_words st = map tw_text r \<and>
        (r \<noteq> [] \<longrightarrow> current_start_time st = Some (tw_start (hd r)) \<and>
                    last_word_end_time st = Some (tw_end (last r))))"

section \<open>Subtitle time stamps: \<open>format_time_srt\<close> in \<open>utils/audio_generator_fr.py\<close>\<close>

text \<open>
  The one place where the source's arithmetic is modelled as the binary64 arithmetic it is:
  the product \<open>seconds * 1000\<close>, whose rounding decides which millisecond is printed.
  A finite float is the rational number it denotes.
\<close>

text \<open>The number of binary digits of a natural number.\<close>

fun bit_length :: "nat \<Rightarrow> nat" where
  "bit_length n = (if n = 0 then 0 else Suc (bit_length (n div 2)))"

declare bit_length.simps [simp del]

text \<open>Two to an integer power.\<close>

definition pow2 :: "int \<Rightarrow> rat" where
  "pow2 e = (if 0 \<le> e then 2 ^ nat e else 1 / 2 ^ nat (- e))"

text \<open>For \<open>x > 0\<close>, the exponent \<open>e\<close> with \<open>2^e \<le> x < 2^(e+1)\<close>.\<close>

definition binade :: "rat \<Rightarrow> int" where
  "binade x =
     (if 1 \<le> x then int (bit_length (nat \<lfloor>x\<rfloor>)) - 1
      else - int (bit_length (nat (\<lceil>1 / x\<rceil> - 1))))"

text \<open>
  The binary64 value nearest to \<open>x\<close>, ties to the even significand: a multiple of
  \<open>2^(e-52)\<close> for \<open>x\<close> in the binade \<open>e\<close>, and of \<open>2^-1074\<close> below \<open>2^-1022\<close>.  It is the
  float a decimal literal denotes and the result of a float operation whose exact
  result is \<open>x\<close>.  The exponent is not bounded above here; \<open>float_mul\<close> tests for overflow.
\<close>

definition round_double :: "rat \<Rightarrow> rat" where
  "round_double x =
     (if x = 0 then 0
      else (let u = pow2 (max (binade \<bar>x\<bar>) (- 1022) - 52)
            in sgn x * (of_int (py_round (\<bar>x\<bar> / u)) * u)))"

text \<open>\<open>a * b\<close> on two finite floats: the exact product rounded to the nearest float;
  \<open>None\<close> stands for an infinite result.\<close>

definition float_mul :: "rat \<Rightarrow> rat \<Rightarrow> rat option" where
  "float_mul a b =
     (let r = round_double (a * b) in if pow2 1024 \<le> \<bar>r\<bar> then None else Some r)"

text \<open>\<open>str(n)\<close> for a natural number: its decimal digits.\<close>

definition digit_char :: "nat \<Rightarrow> char" where
  "digit_char d = ''0123456789'' ! d"

fun str_nat :: "nat \<Rightarrow> string" where
  "str_nat n = (if n < 10 then [digit_char n] else str_nat (n div 10) @ [digit_char (n mod 10)])"

declare str_nat.simps [simp del]

text \<open>\<open>format(n, "0{width}d")\<close>: zero-padded to \<open>width\<close> characters, the sign included.\<close>

definition zero_pad :: "nat \<Rightarrow> string \<Rightarrow> string" where
  "zero_pad width s = replicate (width - length s) (CHR ''0'') @ s"

definition format_0d :: "nat \<Rightarrow> int \<Rightarrow> string" where
  "format_0d width n =
     (if n < 0 then CHR ''-'' # zero_pad (width - 1) (str_nat (nat (- n)))
      else zero_pad width (str_nat (nat n)))"

text \<open>Lines 145-152.  \<open>seconds * 1000\<close> is a product of floats, and \<open>int\<close> of an infinite
  float raises \<open>OverflowError\<close>.  Python's \<open>divmod\<close> on integers is \<open>div\<close> and \<open>mod\<close>.\<close>

definition format_time_srt :: "rat \<Rightarrow> py_error + string" where
  "format_time_srt seconds0 =
     (let seconds = (if seconds0 < 0 then 0 else seconds0)
      in case float_mul seconds 1000 of
           None \<Rightarrow> Inl OverflowError
         | Some product \<Rightarrow>
            (let total_milliseconds = py_int product;
                 hours = total_milliseconds div 3600000;
                 remainder = total_milliseconds mod 3600000;
                 minutes = remainder div 60000;
                 remainder2 = remainder mod 60000;
                 seconds_part = remainder2 div 1000;
                 milliseconds = remainder2 mod 1000
             in Inr (format_0d 2 hours @ '':'' @ format_0d 2 minutes @ '':'' @
                     format_0d 2 seconds_part @ '','' @ format_0d 3 milliseconds)))"

text \<open>The float that the literal \<open>0.009\<close> denotes.\<close>

definition nine_ms :: rat where
  "nine_ms = round_double (9 / 1000)"

section \<open>SRT blocks to timed words: \<open>utils/caption_generator.py\<close>\<close>

text \<open>\<open>s.split(sep)\<close> for a one-character separator: never an empty list.\<close>

fun split_on :: "char \<Rightarrow> string \<Rightarrow> string list" where
  "split_on c [] = [[]]"
| "split_on c (x # xs) =
     (if x = c then [] # split_on c xs
      else (case split_on c xs of p # ps \<Rightarrow> (x # p) # ps | [] \<Rightarrow> [[x]]))"

text \<open>\<open>round(x, 3)\<close>: to the nearest multiple of one thousandth, ties to the even one.\<close>

definition round3 :: "rat \<Rightarrow> rat" where
  "round3 x = of_int (py_round (x * 1000)) / 1000"

text \<open>\<open>parse_srt_time\<close>, lines 24-33.  \<open>int_of\<close> is Python's \<open>int\<close> on a string, \<open>None\<close> when it
  raises \<open>ValueError\<close>; every exception makes the function return \<open>0.0\<close>.\<close>

definition parse_srt_time :: "(string \<Rightarrow> int option) \<Rightarrow> string \<Rightarrow> rat" where
  "parse_srt_time int_of time_str =
     (let parts = split_on (CHR '','') time_str
      in case map int_of (split_on (CHR '':'') (hd parts)) of
           [Some h, Some m, Some s] \<Rightarrow>
             (case tl parts of
                [] \<Rightarrow> 0
              | p1 # _ \<Rightarrow>
                 (case int_of p1 of
                    None \<Rightarrow> 0
                  | Some ms \<Rightarrow> of_int (h * 3600 + m * 60 + s) + of_int ms / 1000))
         | _ \<Rightarrow> 0)"

text \<open>One match of the block pattern: the two time strings, and the words of the text block,
  \<open>' '.join(text_block.strip().splitlines()).strip().split()\<close>.\<close>

record srt_match =
  m_start_str :: string
  m_end_str :: string
  m_words :: "string list"

text \<open>Lines 85-99: the loop over the words of one block.\<close>

fun words_loop :: "rat \<Rightarrow> rat \<Rightarrow> rat \<Rightarrow> string list \<Rightarrow> timed_word list" where
  "words_loop current_word_start_time time_per_word end_time [] = []"
| "words_loop current_word_start_time time_per_word end_time (word # rest) =
     (let word_end_time = min (current_word_start_time + time_per_word) end_time
      in \<lparr>tw_text = word,
          tw_start = round3 current_word_start_time,
          tw_end = round3 word_end_time\<rparr>
         # words_loop word_end_time time_per_word end_time rest)"

text \<open>Lines 67-99: what one match contributes to \<open>timed_words\<close>.\<close>

definition block_words :: "(string \<Rightarrow> int option) \<Rightarrow> srt_match \<Rightarrow> timed_word list" where
  "block_words int_of mt =
     (let start_time = parse_srt_time int_of (m_start_str mt);
          end_time = parse_srt_time int_of (m_end_str mt);
          duration = end_time - start_time
      in if duration \<le> 0 then []
         else if m_words mt = [] then []
         else words_loop start_time (duration / of_nat (length (m_words mt))) end_time (m_words mt))"

text \<open>Lines 66-99: the loop over the matches, appending to \<open>timed_words\<close>.\<close>

fun convert_matches :: "(string \<Rightarrow> int option) \<Rightarrow> srt_match list \<Rightarrow> timed_word list \<Rightarrow> timed_word list" where
  "convert_matches int_of [] timed_words = timed_words"
| "convert_matches int_of (mt # mts) timed_words =
     convert_matches int_of mts (timed_words @ block_words int_of mt)"


subsection \<open>An example block\<close>

text \<open>Python's \<open>int\<close> on the time fields of the example file.\<close>

definition int_of_example :: "string \<Rightarrow> int option" where
  "int_of_example s =
     (if s = ''00'' then Some 0 else if s = ''01'' then Some 1 else if s = ''04'' then Some 4
      else if s = ''000'' then Some 0 else if s = ''500'' then Some 500 else None)"

definition example_match :: srt_match where
  "example_match = \<lparr>m_start_str = ''00:00:01,500'', m_end_str = ''00:00:04,000'',
     m_words = [''Bonjour'', ''tout'', ''le'', ''monde.'', ''Ceci'', ''est'', ''un'', ''test.'']\<rparr>"

text \<open>A block whose end time equals its start time.\<close>

definition empty_span_match :: srt_match where
  "empty_span_match = \<lparr>m_start_str = ''00:00:04,000'', m_end_str = ''00:00:04,000'',
     m_words = [''Fin.'']\<rparr>"

section \<open>Subtitle alignment: \<open>create_subtitle\<close> in \<open>utils/audio_generator_fr.py\<close>\<close>

text \<open>
  The alignment of \<open>create_subtitle\<close> in \<open>utils/voice.py\<close> (the \<open>while\<close> loop of lines 318-368
  and the block appended at lines 370-380) has the same statements.  The two functions
  differ in how \<open>formatter\<close> renders a block (\<open>voice.py\<close> hands the seconds to \<open>mktimestamp\<close>
  and breaks lines differently) and in what they return (\<open>voice.py\<close> returns \<open>None\<close>
  throughout); neither difference reaches the model, which keeps the arguments of each
  \<open>formatter\<close> call.
\<close>

text \<open>
  Subtitle text may hold any Unicode character, and the alignment tests for full-width
  punctuation: a Python \<open>str\<close> is modelled here as the list of its code points.
\<close>

type_synonym ustr = "nat list"

text \<open>The \<open>str\<close> of an ASCII literal.\<close>

definition ustr :: "string \<Rightarrow> ustr" where
  "ustr s = map of_char s"

text \<open>\<open>c.isspace()\<close> for one character.\<close>

definition is_space :: "nat \<Rightarrow> bool" where
  "is_space c =
     (c \<in> {9, 10, 11, 12, 13, 28, 29, 30, 31, 32, 133, 160, 5760, 8232, 8233, 8239, 8287, 12288}
      \<or> (8192 \<le> c \<and> c \<le> 8202))"

text \<open>\<open>s.strip()\<close>\<close>

definition strip :: "ustr \<Rightarrow> ustr" where
  "strip s = rev (dropWhile is_space (rev (dropWhile is_space s)))"

text \<open>The characters of the literal tested by \<open>endswith\<close> in \<open>create_subtitle\<close>: comma, full
  stop, exclamation and question mark, then U+3002, U+FF0C, U+3001, U+FF1F, U+FF01, U+FF1B
  and U+FF1A.\<close>

definition subtitle_punctuation :: "nat list" where
  "subtitle_punctuation = [44, 46, 33, 63, 12290, 65292, 12289, 65311, 65281, 65307, 65306]"

definition ends_with_any :: "ustr \<Rightarrow> nat list \<Rightarrow> bool" where
  "ends_with_any s ps = (\<exists>p \<in> set ps. endswith s [p])"

text \<open>One call of \<open>formatter\<close>, by its arguments: the index, the start and end of the block
  in 100 ns ticks and the text.  The rendered entry is a function of these four.\<close>

record sub_entry =
  e_idx :: nat
  e_start :: rat
  e_end :: rat
  e_text :: ustr

record align_state =
  start_time_ns :: rat
  sub_items :: "sub_entry list"
  sub_index :: nat
  current_sub_line :: ustr
  word_idx :: nat
  script_line_idx :: nat
  processed_words :: nat

text \<open>The body of the \<open>while\<close> loop, lines 229-257, without the final \<open>word_idx += 1\<close>, which both
  the \<open>continue\<close> path and the normal path perform.  \<open>unescape\<close> is
  \<open>xml.sax.saxutils.unescape\<close>.\<close>

definition align_body ::
  "(ustr \<Rightarrow> ustr) \<Rightarrow> ustr list \<Rightarrow> (rat \<times> rat) list \<Rightarrow> ustr list \<Rightarrow> align_state \<Rightarrow> align_state" where
  "align_body unescape subs offset script_lines st =
     (let start_ns = fst (offset ! word_idx st);
          end_ns = snd (offset ! word_idx st);
          word = strip (unescape (subs ! word_idx st))
      in if word = [] then st
         else
          (let start_time = (if start_time_ns st < 0 then start_ns else start_time_ns st);
               line = current_sub_line st @ ustr '' '' @ word;
               processed = processed_words st + 1;
               ends_with_punctuation = ends_with_any word subtitle_punctuation;
               current_script_line = strip (script_lines ! script_line_idx st);
               finalize_block =
                 (if ends_with_punctuation \<and> ends_with_any current_script_line subtitle_punctuation
                  then True
                  else if processed \<ge> 8 then True
                  else int (word_idx st) = int (length subs) - 1)
           in if finalize_block
              then st\<lparr>start_time_ns := - 1,
                      sub_items := sub_items st @
                         [\<lparr>e_idx = sub_index st + 1, e_start = start_time, e_end = end_ns,
                           e_text = current_script_line\<rparr>],
                      sub_index := sub_index st + 1,
                      current_sub_line := [],
                      script_line_idx := script_line_idx st + 1,
                      processed_words := 0\<rparr>
              else st\<lparr>start_time_ns := start_time,
                      current_sub_line := line,
                      processed_words := processed\<rparr>))"

text \<open>The \<open>while\<close> loop, lines 228-258.  \<open>sub_maker.offset[word_idx]\<close> raises \<open>IndexError\<close> when
  the offsets are fewer than the words.\<close>

function align_loop ::
  "(ustr \<Rightarrow> ustr) \<Rightarrow> ustr list \<Rightarrow> (rat \<times> rat) list \<Rightarrow> ustr list \<Rightarrow> align_state
     \<Rightarrow> py_error + align_state" where
  "align_loop unescape subs offset script_lines st =
     (if word_idx st < length subs \<and> script_line_idx st < length script_lines
      then if word_idx st < length offset
           then align_loop unescape subs offset script_lines
                  ((align_body unescape subs offset script_lines st)\<lparr>word_idx := word_idx st + 1\<rparr>)
           else Inl IndexError
      else Inr st)"
  by pat_completeness auto
termination
  by (relation "measure (\<lambda>(unescape, subs, offset, script_lines, st). length subs - word_idx st)")
     auto

declare align_loop.simps [simp del]

text \<open>What \<open>create_subtitle\<close> hands to the file writer: \<open>Failure\<close> when it returns \<open>False\<close>
  before writing, else the entries and whether the warning
  "Appending remaining script line due to imperfect alignment." was logged.\<close>

datatype subtitle_result = Failure | Subtitles "sub_entry list" bool

definition align_init :: align_state where
  "align_init = \<lparr>start_time_ns = - 1, sub_items = [], sub_index = 0, current_sub_line = [],
                 word_idx = 0, script_line_idx = 0, processed_words = 0\<rparr>"

text \<open>Lines 260-264: the block appended after the loop.\<close>

definition align_finish :: "(rat \<times> rat) list \<Rightarrow> ustr list \<Rightarrow> align_state \<Rightarrow> sub_entry list \<times> bool" where
  "align_finish offset script_lines st =
     (if strip (current_sub_line st) \<noteq> [] \<and> script_line_idx st < length script_lines
      then (sub_items st @
              [\<lparr>e_idx = sub_index st + 1, e_start = start_time_ns st, e_end = snd (last offset),
                e_text = strip (script_lines ! script_line_idx st)\<rparr>], True)
      else (sub_items st, False))"

text \<open>\<open>create_subtitle\<close>, lines 187-268, up to the list \<open>sub_items\<close> that is then written to the
  file.  \<open>subs\<close> and \<open>offset\<close> are the two lists of the \<open>SubMaker\<close>; \<open>script_lines\<close> is
  \<open>split_string_by_punctuations(_format_text(text))\<close>.\<close>

definition create_subtitle ::
  "(ustr \<Rightarrow> ustr) \<Rightarrow> ustr list \<Rightarrow> (rat \<times> rat) list \<Rightarrow> ustr list \<Rightarrow> py_error + subtitle_result" where
  "create_subtitle unescape subs offset script_lines =
     (if offset = [] \<or> subs = [] then Inr Failure
      else if script_lines = [] then Inr Failure
      else case align_loop unescape subs offset script_lines align_init of
             Inl e \<Rightarrow> Inl e
           | Inr st \<Rightarrow>
              (case align_finish offset script_lines st of
                 (items, warned) \<Rightarrow> if items = [] then Inr Failure else Inr (Subtitles items warned)))"


subsection \<open>Example streams\<close>

text \<open>A word followed by a blank entry, and a script of three segments.\<close>

definition hello_blank :: "ustr list" where
  "hello_blank = [ustr ''hello'', ustr '' '']"

definition three_segments :: "ustr list" where
  "three_segments = [ustr ''Hello,'', ustr ''big'', ustr ''world.'']"

text \<open>
  The synthesiser's word boundaries for the sentence \<open>Bonjour, tout le monde.\<close>: four words
  without punctuation, 1.2 s in all, in 100 ns ticks; and the two segments into which
  \<open>split_string_by_punctuations\<close> cuts the sentence.
\<close>

definition bonjour_subs :: "ustr list" where
  "bonjour_subs = [ustr ''Bonjour'', ustr ''tout'', ustr ''le'', ustr ''monde'']"

definition bonjour_offset :: "(rat \<times> rat) list" where
  "bonjour_offset = [(0, 4000000), (4000000, 6000000), (6000000, 7000000), (7000000, 12000000)]"

definition bonjour_script_lines :: "ustr list" where
  "bonjour_script_lines = [ustr ''Bonjour,'', ustr ''tout le monde.'']"

subsection \<open>Loop invariants of the alignment\<close>

text \<open>A word that survives \<open>unescape\<close> and \<open>strip\<close>.\<close>

definition nonblank :: "(ustr \<Rightarrow> ustr) \<Rightarrow> ustr \<Rightarrow> bool" where
  "nonblank unescape w = (strip (unescape w) \<noteq> [])"

text \<open>Block \<open>k\<close> carries segment \<open>k\<close>, stripped, and nothing else.\<close>

definition align_inv :: "ustr list \<Rightarrow> align_state \<Rightarrow> bool" where
  "align_inv script_lines st =
     (script_line_idx st \<le> length script_lines \<and>
      length (sub_items st) = script_line_idx st \<and>
      map e_text (sub_items st) = map strip (take (script_line_idx st) script_lines))"

text \<open>Every block emitted, and the pending line, has used up a non-blank word of its own.\<close>

definition count_words_inv :: "(ustr \<Rightarrow> ustr) \<Rightarrow> ustr list \<Rightarrow> align_state \<Rightarrow> bool" where
  "count_words_inv unescape subs st =
     (word_idx st \<le> length subs \<and>
      length (sub_items st) + (if current_sub_line st = [] then 0 else 1)
        \<le> length (filter (nonblank unescape) (take (word_idx st) subs)))"

section \<open>Scene media resolution: \<open>compose_final_video\<close> in \<open>utils/video_composer.py\<close>\<close>

text \<open>
  A moviepy clip is modelled by the expression that builds it: one constructor for each
  library call the composer makes.  A video file carries the duration and frame size read
  from it, an image file its size.
\<close>

datatype clip =
    VideoFileClip string rat nat nat
  | ImageClip string nat nat
  | ColorClip nat nat "nat \<times> nat \<times> nat" rat
  | TextClip string
  | Subclip clip rat rat
  | Loop clip rat
  | WithoutAudio clip
  | SetDuration clip rat
  | SetPositionCenter clip
  | Resize clip nat nat
  | ResizeWidth clip nat
  | CompositeVideoClip "clip list" nat nat

text \<open>The attribute \<open>clip.duration\<close>; \<open>None\<close> for a still image or a text without a duration.
  A composite lasts as long as its longest part.\<close>

fun clip_duration :: "clip \<Rightarrow> rat option" where
  "clip_duration (VideoFileClip p d w h) = Some d"
| "clip_duration (ImageClip p w h) = None"
| "clip_duration (ColorClip w h col d) = Some d"
| "clip_duration (TextClip t) = None"
| "clip_duration (Subclip c t_start t_end) = Some (t_end - t_start)"
| "clip_duration (Loop c d) = Some d"
| "clip_duration (WithoutAudio c) = clip_duration c"
| "clip_duration (SetDuration c d) = Some d"
| "clip_duration (SetPositionCenter c) = clip_duration c"
| "clip_duration (Resize c w h) = clip_duration c"
| "clip_duration (ResizeWidth c w) = clip_duration c"
| "clip_duration (CompositeVideoClip cs w h) =
     (if list_all (\<lambda>c. clip_duration c \<noteq> None) cs
      then Some (fold max (map (\<lambda>c. case clip_duration c of Some d \<Rightarrow> d | None \<Rightarrow> 0) cs) 0)
      else None)"

text \<open>The attribute \<open>clip.size\<close>, for the clips whose size the composer reads.\<close>

fun clip_size :: "clip \<Rightarrow> (nat \<times> nat) option" where
  "clip_size (VideoFileClip p d w h) = Some (w, h)"
| "clip_size (ImageClip p w h) = Some (w, h)"
| "clip_size (ColorClip w h col d) = Some (w, h)"
| "clip_size (TextClip t) = None"
| "clip_size (Subclip c t_start t_end) = clip_size c"
| "clip_size (Loop c d) = clip_size c"
| "clip_size (WithoutAudio c) = clip_size c"
| "clip_size (SetDuration c d) = clip_size c"
| "clip_size (SetPositionCenter c) = clip_size c"
| "clip_size (Resize c w h) = Some (w, h)"
| "clip_size (ResizeWidth c w) =
     (case clip_size c of None \<Rightarrow> None
      | Some (w0, h0) \<Rightarrow> if w0 = 0 then None else Some (w, nat (py_int (of_nat h0 * of_nat w / of_nat w0))))"
| "clip_size (CompositeVideoClip cs w h) = Some (w, h)"

text \<open>The media file a clip shows, if any.\<close>

fun clip_source :: "clip \<Rightarrow> string option" where
  "clip_source (VideoFileClip p d w h) = Some p"
| "clip_source (ImageClip p w h) = Some p"
| "clip_source (ColorClip w h col d) = None"
| "clip_source (TextClip t) = None"
| "clip_source (Subclip c t_start t_end) = clip_source c"
| "clip_source (Loop c d) = clip_source c"
| "clip_source (WithoutAudio c) = clip_source c"
| "clip_source (SetDuration c d) = clip_source c"
| "clip_source (SetPositionCenter c) = clip_source c"
| "clip_source (Resize c w h) = clip_source c"
| "clip_source (ResizeWidth c w) = clip_source c"
| "clip_source (CompositeVideoClip cs w h) = (case filter (\<lambda>x. x \<noteq> None) (map clip_source cs) of [] \<Rightarrow> None | x # _ \<Rightarrow> x)"


text \<open>\<open>resize_clip_to_aspect\<close>, lines 76-118.  Unpacking a missing size raises \<open>TypeError\<close>;
  the two ratios are divisions by the heights.\<close>

definition resize_clip_to_aspect :: "clip \<Rightarrow> nat \<Rightarrow> nat \<Rightarrow> nat \<times> nat \<times> nat \<Rightarrow> py_error + clip" where
  "resize_clip_to_aspect clip target_width target_height bg_color =
     (case clip_size clip of
        None \<Rightarrow> Inl TypeError
      | Some (clip_w, clip_h) \<Rightarrow>
         if target_height = 0 then Inl ZeroDivisionError
         else if clip_h = 0 then Inl ZeroDivisionError
         else
          (let target_ratio = (of_nat target_width :: rat) / of_nat target_height;
               clip_ratio = (of_nat clip_w :: rat) / of_nat clip_h
           in if clip_ratio = target_ratio then Inr (ResizeWidth clip target_width)
              else
               (let scale_factor = (if clip_ratio > target_ratio
                                    then of_nat target_width / of_nat clip_w
                                    else of_nat target_height / of_nat clip_h);
                    new_width = py_int (of_nat clip_w * scale_factor);
                    new_height = py_int (of_nat clip_h * scale_factor);
                    clip_duration0 = (case clip_duration clip of None \<Rightarrow> 1 | Some d \<Rightarrow> d);
                    resized_clip = Resize clip (nat new_width) (nat new_height);
                    background = ColorClip target_width target_height bg_color clip_duration0;
                    final_clip = CompositeVideoClip [background, SetPositionCenter resized_clip]
                                   target_width target_height
                in Inr (SetDuration final_clip clip_duration0))))"

text \<open>A scene of the script: a dict read with \<open>scene.get\<close>, so each key may be missing.\<close>

record scene =
  scene_number :: "int option"
  visual_type :: "string option"
  duration_seconds :: "rat option"

text \<open>\<open>all([scene_number, visual_type, duration_seconds])\<close>, line 187: each value must be
  truthy, so neither missing, nor zero, nor the empty string.\<close>

definition all_present :: "scene \<Rightarrow> bool" where
  "all_present s =
     ((case scene_number s of None \<Rightarrow> False | Some n \<Rightarrow> n \<noteq> 0) \<and>
      (case visual_type s of None \<Rightarrow> False | Some v \<Rightarrow> v \<noteq> []) \<and>
      (case duration_seconds s of None \<Rightarrow> False | Some d \<Rightarrow> d \<noteq> 0))"

text \<open>
  What the file system and the media library answer.  \<open>video_file p\<close> is the duration and
  frame size of \<open>VideoFileClip(p)\<close>, \<open>None\<close> when the constructor raises; \<open>image_file\<close>
  likewise for \<open>ImageClip(p)\<close>; \<open>glob_jpeg\<close> are the names that
  \<open>ai_images_dir.glob("*.jpeg")\<close> yields, in any order; \<open>choice k\<close> is what the \<open>k\<close>-th call of
  \<open>random.choice\<close> picks; \<open>audio_file\<close> is the duration of the voice-over, \<open>None\<close> when it
  cannot be loaded; \<open>imagemagick\<close> tells whether the ImageMagick binary that line 25
  configures, \<open>magick.exe\<close> of ImageMagick 7.1.1 under the Windows program directory, can
  be run: \<open>TextClip\<close> renders its text by running it and raises \<open>OSError\<close> when that fails.
\<close>

record media_env =
  is_file :: "string \<Rightarrow> bool"
  video_file :: "string \<Rightarrow> (rat \<times> nat \<times> nat) option"
  image_file :: "string \<Rightarrow> (nat \<times> nat) option"
  glob_jpeg :: "string list"
  choice :: "nat \<Rightarrow> string list \<Rightarrow> string"
  audio_file :: "rat option"
  imagemagick :: bool

text \<open>The arguments of \<open>compose_final_video\<close> that the scene loop reads.\<close>

record compose_args =
  hook_video_path :: "string option"
  product_image_path :: "string option"
  stock_videos_map :: "int \<Rightarrow> string list option"
  main_product_video_path :: "string option"
  target_w :: nat
  target_h :: nat

definition DEFAULT_BG_COLOR :: "nat \<times> nat \<times> nat" where
  "DEFAULT_BG_COLOR = (0, 0, 0)"

definition MAX_HOOK_DURATION :: rat where
  "MAX_HOOK_DURATION = 4"

text \<open>\<open>path and Path(path).is_file()\<close>\<close>

definition usable_file :: "media_env \<Rightarrow> string option \<Rightarrow> bool" where
  "usable_file env path = (case path of None \<Rightarrow> False | Some p \<Rightarrow> p \<noteq> [] \<and> is_file env p)"

text \<open>The trim-or-loop of lines 233-237 and 255-259.\<close>

definition fit_to_duration :: "clip \<Rightarrow> rat \<Rightarrow> rat \<Rightarrow> clip" where
  "fit_to_duration temp_clip dur duration =
     (if dur \<ge> duration then Subclip temp_clip 0 duration
      else Loop temp_clip duration)"

text \<open>
  Lines 197-269, the dispatch on \<open>visual_type\<close>.  The result is the exception raised, or
  \<open>scene_clip_raw\<close> (\<open>None\<close> when no media was loaded), together with \<open>ai_image_index\<close> and
  the number of \<open>random.choice\<close> calls as they stand when the block is left.
\<close>

definition load_media ::
  "media_env \<Rightarrow> compose_args \<Rightarrow> nat \<Rightarrow> nat \<Rightarrow> int \<Rightarrow> string \<Rightarrow> rat
     \<Rightarrow> (py_error + clip option) \<times> nat \<times> nat" where
  "load_media env args ai_image_index n_choices scene_no vtype duration =
     (if vtype = ''hook'' then
        (if usable_file env (hook_video_path args) then
           (case hook_video_path args of
              None \<Rightarrow> (Inr None, ai_image_index, n_choices)
            | Some p \<Rightarrow>
               (case video_file env p of
                  None \<Rightarrow> (Inr None, ai_image_index, n_choices)
                | Some (actual_hook_duration, w, h) \<Rightarrow>
                   (let target_duration = min duration (min actual_hook_duration MAX_HOOK_DURATION)
                    in (Inr (Some (Subclip (VideoFileClip p actual_hook_duration w h) 0 target_duration)),
                        ai_image_index, n_choices))))
         else (Inr None, ai_image_index, n_choices))
      else if vtype = ''ai_image'' then
        (let ai_image_files = sort (glob_jpeg env)
         in if ai_image_index < length ai_image_files then
              (let p = ai_image_files ! ai_image_index
               in case image_file env p of
                    None \<Rightarrow> (Inl (OSError p), ai_image_index, n_choices)
                  | Some (w, h) \<Rightarrow>
                     (Inr (Some (SetDuration (ImageClip p w h) duration)),
                      ai_image_index + 1, n_choices))
            else (Inr None, ai_image_index, n_choices))
      else if vtype = ''stock_video'' then
        (let video_paths = (case stock_videos_map args scene_no of None \<Rightarrow> [] | Some ps \<Rightarrow> ps)
         in if video_paths \<noteq> [] then
              (let p = choice env n_choices video_paths
               in case video_file env p of
                    None \<Rightarrow> (Inl (OSError p), ai_image_index, n_choices + 1)
                  | Some (dur, w, h) \<Rightarrow>
                     (Inr (Some (WithoutAudio (fit_to_duration (VideoFileClip p dur w h) dur duration))),
                      ai_image_index, n_choices + 1))
            else (Inr None, ai_image_index, n_choices))
      else if vtype = ''product_shot'' then
        (if usable_file env (product_image_path args) then
           (case product_image_path args of
              None \<Rightarrow> (Inr None, ai_image_index, n_choices)
            | Some p \<Rightarrow>
               (case image_file env p of
                  None \<Rightarrow> (Inl (OSError p), ai_image_index, n_choices)
                | Some (w, h) \<Rightarrow>
                   (Inr (Some (SetDuration (ImageClip p w h) duration)), ai_image_index, n_choices)))
         else (Inr None, ai_image_index, n_choices))
      else if vtype = ''product_video'' then
        (if usable_file env (main_product_video_path args) then
           (case main_product_video_path args of
              None \<Rightarrow> (Inr None, ai_image_index, n_choices)
            | Some p \<Rightarrow>
               (case video_file env p of
                  None \<Rightarrow> (Inr None, ai_image_index, n_choices)
                | Some (dur, w, h) \<Rightarrow>
                   (Inr (Some (WithoutAudio (fit_to_duration (VideoFileClip p dur w h) dur duration))),
                    ai_image_index, n_choices)))
         else (Inr None, ai_image_index, n_choices))
      else (Inr None, ai_image_index, n_choices))"

text \<open>\<open>str(n)\<close> for an integer.\<close>

definition str_int :: "int \<Rightarrow> string" where
  "str_int n = (if n < 0 then CHR ''-'' # str_nat (nat (- n)) else str_nat (nat n))"

text \<open>Lines 289-291: the red clip with the text \<open>Error\<close>, a line feed and \<open>Scene n\<close>.  The
  \<open>TextClip\<close> constructor raises \<open>OSError\<close> when ImageMagick cannot be run.\<close>

definition error_placeholder :: "media_env \<Rightarrow> nat \<Rightarrow> nat \<Rightarrow> int \<Rightarrow> rat \<Rightarrow> py_error + clip" where
  "error_placeholder env tw th scene_no duration =
     (let error_clip = ColorClip tw th (255, 0, 0) duration
      in if imagemagick env then
           (let error_text = SetPositionCenter
                  (SetDuration (TextClip (''Error'' @ [CHR 0x0A] @ ''Scene '' @ str_int scene_no))
                     duration)
            in Inr (SetDuration (CompositeVideoClip [error_clip, error_text] tw th) duration))
         else Inl (OSError ''ImageMagick''))"

text \<open>The variables the scene loop updates.  \<open>processing_log\<close> lists the scene numbers of the
  log lines "Processing Scene ..." of line 191, in the order they are written.\<close>

record compose_state =
  video_clips :: "clip list"
  ai_image_index :: nat
  current_video_duration :: rat
  error_occurred :: bool
  n_choices :: nat
  processing_log :: "int list"

text \<open>Lines 195-284: the \<open>try\<close> block of one scene, giving the processed clip or the exception
  that reaches the \<open>except\<close> clause.\<close>

definition try_scene ::
  "media_env \<Rightarrow> compose_args \<Rightarrow> compose_state \<Rightarrow> int \<Rightarrow> string \<Rightarrow> rat
     \<Rightarrow> (py_error + clip) \<times> nat \<times> nat" where
  "try_scene env args st scene_no vtype duration =
     (case load_media env args (ai_image_index st) (n_choices st) scene_no vtype duration of
        (Inl e, ai, nc) \<Rightarrow> (Inl e, ai, nc)
      | (Inr loaded, ai, nc) \<Rightarrow>
         (let scene_clip_raw = (case loaded of
                                  None \<Rightarrow> ColorClip (target_w args) (target_h args) DEFAULT_BG_COLOR duration
                                | Some c \<Rightarrow> c);
              scene_clip_raw = SetDuration scene_clip_raw duration
          in (resize_clip_to_aspect scene_clip_raw (target_w args) (target_h args) DEFAULT_BG_COLOR,
              ai, nc)))"

text \<open>
  Lines 182-302: one iteration of \<open>for scene in scenes\<close>.  The statements of the \<open>except\<close>
  clause, lines 286-294, stand outside any \<open>try\<close>: an exception raised while the error
  placeholder is built leaves the loop, and with it \<open>compose_final_video\<close>.  The \<open>finally\<close>
  clause only closes the raw clip.
\<close>

definition process_scene ::
  "media_env \<Rightarrow> compose_args \<Rightarrow> compose_state \<Rightarrow> scene \<Rightarrow> py_error + compose_state" where
  "process_scene env args st sc =
     (if \<not> all_present sc then Inr st
      else case (scene_number sc, visual_type sc, duration_seconds sc) of
        (Some scene_no, Some vtype, Some duration) \<Rightarrow>
          (case try_scene env args st scene_no vtype duration of
             (Inr processed_clip, ai, nc) \<Rightarrow>
               Inr (st\<lparr>video_clips := video_clips st @ [processed_clip],
                       ai_image_index := ai,
                       current_video_duration := current_video_duration st + duration,
                       n_choices := nc,
                       processing_log := processing_log st @ [scene_no]\<rparr>)
           | (Inl e, ai, nc) \<Rightarrow>
               (case error_placeholder env (target_w args) (target_h args) scene_no duration of
                  Inl e' \<Rightarrow> Inl e'
                | Inr processed_clip \<Rightarrow>
                    Inr (st\<lparr>video_clips := video_clips st @ [processed_clip],
                            ai_image_index := ai,
                            current_video_duration := current_video_duration st + duration,
                            error_occurred := True,
                            n_choices := nc,
                            processing_log := processing_log st @ [scene_no]\<rparr>)))
      | _ \<Rightarrow> Inr st)"

text \<open>The loop: it ends with the state after the last scene, or with the exception that
  left it.\<close>

fun process_scenes ::
  "media_env \<Rightarrow> compose_args \<Rightarrow> scene list \<Rightarrow> compose_state \<Rightarrow> py_error + compose_state" where
  "process_scenes env args [] st = Inr st"
| "process_scenes env args (sc # scs) st =
     (case process_scene env args st sc of
        Inl e \<Rightarrow> Inl e
      | Inr st' \<Rightarrow> process_scenes env args scs st')"

definition compose_init :: compose_state where
  "compose_init = \<lparr>video_clips = [], ai_image_index = 0, current_video_duration = 0,
                   error_occurred = False, n_choices = 0, processing_log = []\<rparr>"

text \<open>\<open>concatenate_videoclips(video_clips, method="compose").duration\<close>: the clips play one
  after the other.\<close>

fun concatenated_duration :: "clip list \<Rightarrow> rat option" where
  "concatenated_duration [] = Some 0"
| "concatenated_duration (c # cs) =
     (case (clip_duration c, concatenated_duration cs) of
        (Some d, Some r) \<Rightarrow> Some (d + r)
      | _ \<Rightarrow> None)"

text \<open>\<open>compose_final_video\<close> up to the concatenation of line 311: the exception that left
  the scene loop, or \<open>None\<close> where the function has returned \<open>False\<close> by then, else the clips
  handed to \<open>concatenate_videoclips\<close>.  The scene loop is inside no \<open>try\<close>, so what leaves it
  reaches the caller.  Encoding and writing the file follow and are not modelled.\<close>

definition compose_final_video ::
  "media_env \<Rightarrow> compose_args \<Rightarrow> scene list \<Rightarrow> py_error + clip list option" where
  "compose_final_video env args scenes =
     (if scenes = [] then Inr None
      else if audio_file env = None then Inr None
      else case process_scenes env args scenes compose_init of
             Inl e \<Rightarrow> Inl e
           | Inr st \<Rightarrow> if video_clips st = [] then Inr None else Inr (Some (video_clips st)))"

subsection \<open>Example projects\<close>

text \<open>A project with no media at all, whose voice-over loads, on a machine that has
  ImageMagick where line 25 expects it.\<close>

definition no_media :: media_env where
  "no_media = \<lparr>is_file = (\<lambda>p. False), video_file = (\<lambda>p. None), image_file = (\<lambda>p. None),
               glob_jpeg = [], choice = (\<lambda>k ps. hd ps), audio_file = Some 8,
               imagemagick = True\<rparr>"

text \<open>A project whose only generated image, \<open>1.jpeg\<close>, cannot be decoded, on a machine
  without ImageMagick at the path of line 25 (any machine that does not run Windows, for
  one).\<close>

definition unreadable_image :: media_env where
  "unreadable_image = no_media\<lparr>glob_jpeg := [''1.jpeg''], imagemagick := False\<rparr>"

text \<open>No paths supplied; the default target size \<open>TIKTOK_ASPECT_RATIO\<close>.\<close>

definition tiktok_args :: compose_args where
  "tiktok_args = \<lparr>hook_video_path = None, product_image_path = None,
                  stock_videos_map = (\<lambda>n. None), main_product_video_path = None,
                  target_w = 1080, target_h = 1920\<rparr>"

text \<open>A scene dict with all three keys.\<close>

definition mk_scene :: "int \<Rightarrow> string \<Rightarrow> rat \<Rightarrow> scene" where
  "mk_scene n v d = \<lparr>scene_number = Some n, visual_type = Some v, duration_seconds = Some d\<rparr>"

text \<open>The image directory after ten images were generated, numbered as \<open>image_generator\<close>
  numbers them, and a script with ten \<open>ai_image\<close> scenes.\<close>

definition ten_images :: media_env where
  "ten_images = no_media\<lparr>glob_jpeg := [''1.jpeg'', ''2.jpeg'', ''3.jpeg'', ''4.jpeg'', ''5.jpeg'',
        ''6.jpeg'', ''7.jpeg'', ''8.jpeg'', ''9.jpeg'', ''10.jpeg''],
     image_file := (\<lambda>p. Some (1008, 1792))\<rparr>"


definition ten_image_scenes :: "scene list" where
  "ten_image_scenes =
     [mk_scene 1 ''ai_image'' 3, mk_scene 2 ''ai_image'' 3, mk_scene 3 ''ai_image'' 3,
      mk_scene 4 ''ai_image'' 3, mk_scene 5 ''ai_image'' 3, mk_scene 6 ''ai_image'' 3,
      mk_scene 7 ''ai_image'' 3, mk_scene 8 ''ai_image'' 3, mk_scene 9 ''ai_image'' 3,
      mk_scene 10 ''ai_image'' 3]"

text \<open>A stock pool of one five-second clip for scene 2.\<close>

definition five_second_stock :: media_env where
  "five_second_stock = no_media\<lparr>video_file := (\<lambda>p. Some (5, 480, 854))\<rparr>"

definition stock_for_scene_two :: compose_args where
  "stock_for_scene_two =
     tiktok_args\<lparr>stock_videos_map := (\<lambda>n. if n = 2 then Some [''stock1.mp4''] else None)\<rparr>"

subsection \<open>Reading a scene's fields\<close>

definition scene_no :: "scene \<Rightarrow> int" where
  "scene_no sc = (case scene_number sc of None \<Rightarrow> 0 | Some n \<Rightarrow> n)"

definition declared_duration :: "scene \<Rightarrow> rat" where
  "declared_duration sc = (case duration_seconds sc of None \<Rightarrow> 0 | Some d \<Rightarrow> d)"

subsection \<open>Timed words from the synthesiser: \<open>get_timed_words_from_submaker\<close>\<close>

text \<open>A word as \<open>get_timed_words_from_submaker\<close> emits it: the text, and start and end in
  seconds.\<close>

record submaker_word =
  sw_text :: ustr
  sw_start :: rat
  sw_end :: rat

text \<open>Lines 170-184 of \<open>utils/audio_generator_fr.py\<close>: the word built from entry \<open>i\<close> of the
  \<open>SubMaker\<close>, its offsets being in 100 ns ticks.\<close>

definition timed_word_of :: "(ustr \<Rightarrow> ustr) \<Rightarrow> ustr \<Rightarrow> rat \<times> rat \<Rightarrow> submaker_word" where
  "timed_word_of unescape sub off =
     (let text = strip (unescape sub);
          start_sec = fst off / 10000000;
          end_sec0 = snd off / 10000000;
          end_sec = (if end_sec0 < start_sec then start_sec else end_sec0)
      in \<lparr>sw_text = text, sw_start = round3 start_sec, sw_end = round3 end_sec\<rparr>)"

text \<open>\<open>get_timed_words_from_submaker\<close>, lines 154-185.\<close>

definition get_timed_words_from_submaker ::
  "(ustr \<Rightarrow> ustr) \<Rightarrow> ustr list \<Rightarrow> (rat \<times> rat) list \<Rightarrow> submaker_word list" where
  "get_timed_words_from_submaker unescape subs offset =
     (if subs = [] \<or> offset = [] then []
      else map (\<lambda>i. timed_word_of unescape (subs ! i) (offset ! i))
             [0 ..< min (length subs) (length offset)])"

section \<open>Properties of the caption grouper\<close>

lemmas group_eval = group_words_into_captions_def as_dict_def getitem_def group_step_def Let_def
  group_finish_def mk_caption_def punctuation_marks_def endswith_def group_loop.simps

lemma group_loop_as_dict [simp]:
  "group_loop mw md (as_dict t # ws) st =
     group_loop mw md ws (group_step mw md st (tw_text t) (tw_start t) (tw_end t) (ws = []))"
  by (simp add: as_dict_def getitem_def)

declare group_loop.simps(2) [simp del]

lemma group_loop_total:
  "\<exists>st'. group_loop mw md (map as_dict ts) st = Inr st'"
  by (induction ts arbitrary: st) simp_all

lemma step_flat_words:
  "flat_words (group_step mw md st wt ws we lastw) = flat_words st @ [wt]"
  by (simp add: flat_words_def group_step_def Let_def mk_caption_def)

lemma step_group_ok:
  "group_ok (group_step mw md st wt ws we lastw)"
  by (simp add: group_ok_def group_step_def Let_def mk_caption_def)

lemma loop_flat_words:
  "group_loop mw md (map as_dict ts) st = Inr st' \<Longrightarrow>
     flat_words st' = flat_words st @ map tw_text ts"
  by (induction ts arbitrary: st) (simp_all add: step_flat_words)

lemma loop_group_ok:
  "group_loop mw md (map as_dict ts) st = Inr st' \<Longrightarrow> group_ok st \<Longrightarrow> group_ok st'"
  by (induction ts arbitrary: st) (simp_all add: step_group_ok)

lemma finish_flat_words:
  "group_ok st \<Longrightarrow> concat (map c_words (group_finish st)) = flat_words st"
  by (auto simp: group_ok_def group_finish_def flat_words_def mk_caption_def split: option.splits)


lemma step_start_inv:
  "start_inv st b \<Longrightarrow> b \<le> ws \<Longrightarrow> start_inv (group_step mw md st wt ws we lastw) ws"
  by (fastforce simp: start_inv_def group_step_def Let_def mk_caption_def sorted_append)

lemma loop_start_inv:
  "group_loop mw md (map as_dict ts) st = Inr st' \<Longrightarrow> start_inv st b \<Longrightarrow>
     sorted (b # map tw_start ts) \<Longrightarrow> \<exists>b'. start_inv st' b'"
proof (induction ts arbitrary: st b)
  case Nil
  then show ?case by auto
next
  case (Cons t ts)
  have "start_inv (group_step mw md st (tw_text t) (tw_start t) (tw_end t) (map as_dict ts = [])) (tw_start t)"
    using Cons.prems by (intro step_start_inv) auto
  moreover have "sorted (tw_start t # map tw_start ts)"
    using Cons.prems by simp
  ultimately show ?case
    using Cons.IH Cons.prems(1) by simp
qed

lemma finish_start_sorted:
  "start_inv st b \<Longrightarrow> sorted (map c_start (group_finish st))"
  by (auto simp: start_inv_def group_finish_def mk_caption_def sorted_append split: option.splits)

lemma end_inv_snoc:
  assumes "map c_end cs = map Some es" "sorted es" "\<forall>x \<in> set es. x \<le> e" "e \<le> b"
  shows "\<exists>es'. map c_end (cs @ [mk_caption s (Some e) ws]) = map Some es' \<and> sorted es' \<and>
           (\<forall>x \<in> set es'. x \<le> b) \<and> (\<forall>x \<in> set es'. x \<le> b)"
  using assms by (intro exI[of _ "es @ [e]"]) (auto simp: mk_caption_def sorted_append)

lemma step_end_inv:
  assumes "end_inv st b" "b \<le> we"
  shows "end_inv (group_step mw md st wt ws we lastw) we"
proof -
  from assms(1) obtain es where es: "map c_end (grouped_captions st) = map Some es" "sorted es"
     "\<forall>x \<in> set es. x \<le> b"
     "current_group_words st \<noteq> [] \<longrightarrow>
           (\<exists>e. last_word_end_time st = Some e \<and> e \<le> b \<and> (\<forall>x \<in> set es. x \<le> e))"
    unfolding end_inv_def by blast
  show ?thesis
  proof (cases "current_group_words st = []")
    case True
    then show ?thesis using es assms(2)
      unfolding end_inv_def by (intro exI[of _ es]) (auto simp: group_step_def Let_def)
  next
    case False
    then obtain e where e: "last_word_end_time st = Some e" "e \<le> b" "\<forall>x \<in> set es. x \<le> e"
      using es(4) by blast
    have a: "end_inv (st\<lparr>current_group_words := cw, current_start_time := cs, last_word_end_time := Some we\<rparr>) we" for cw cs 
      unfolding end_inv_def using es assms(2) by (intro exI[of _ es]) auto
    have b1: "end_inv \<lparr>grouped_captions = grouped_captions st @ [mk_caption s (Some we) w1],
                  current_group_words = [], current_start_time = None, last_word_end_time = None\<rparr> we" for s w1
      unfolding end_inv_def using es assms(2)
      by (intro exI[of _ "es @ [we]"]) (auto simp: mk_caption_def sorted_append)
    have b2: "end_inv \<lparr>grouped_captions = grouped_captions st @ [mk_caption s (Some e) w1],
                  current_group_words = [wt], current_start_time = Some ws, last_word_end_time = Some we\<rparr> we" for s w1
      unfolding end_inv_def using es e assms(2)
      by (intro exI[of _ "es @ [e]"]) (auto simp: mk_caption_def sorted_append)
    show ?thesis
      using a b1 b2 e(1) False by (auto simp: group_step_def Let_def)
  qed
qed

lemma loop_end_inv:
  "group_loop mw md (map as_dict ts) st = Inr st' \<Longrightarrow> end_inv st b \<Longrightarrow>
     sorted (b # map tw_end ts) \<Longrightarrow> \<exists>b'. end_inv st' b'"
proof (induction ts arbitrary: st b)
  case Nil
  then show ?case by auto
next
  case (Cons t ts)
  have "end_inv (group_step mw md st (tw_text t) (tw_start t) (tw_end t) (map as_dict ts = [])) (tw_end t)"
    using Cons.prems by (intro step_end_inv) auto
  moreover have "sorted (tw_end t # map tw_end ts)"
    using Cons.prems by simp
  ultimately show ?case
    using Cons.IH Cons.prems(1) by simp
qed

lemma finish_end_sorted:
  assumes "end_inv st b"
  shows "\<exists>es. map c_end (group_finish st) = map Some es \<and> sorted es"
proof -
  from assms obtain es where es: "map c_end (grouped_captions st) = map Some es" "sorted es"
     "current_group_words st \<noteq> [] \<longrightarrow>
           (\<exists>e. last_word_end_time st = Some e \<and> e \<le> b \<and> (\<forall>x \<in> set es. x \<le> e))"
    unfolding end_inv_def by blast
  show ?thesis
  proof (cases "current_group_words st \<noteq> [] \<and> current_start_time st \<noteq> None")
    case True
    then obtain e s where e: "last_word_end_time st = Some e" "\<forall>x \<in> set es. x \<le> e"
       "current_start_time st = Some s"
      using es(3) by auto
    show ?thesis using es(1,2) e True
      by (intro exI[of _ "es @ [e]"]) (auto simp: group_finish_def mk_caption_def sorted_append)
  next
    case False
    then show ?thesis using es(1,2)
      by (intro exI[of _ es]) (auto simp: group_finish_def split: option.splits)
  qed
qed


lemma step_span_inv:
  "span_inv st b \<Longrightarrow> b \<le> ws \<Longrightarrow> ws \<le> we \<Longrightarrow>
     span_inv (group_step mw md st wt ws we lastw) ws"
  by (fastforce simp: span_inv_def group_step_def Let_def mk_caption_def)

lemma loop_span_inv:
  "group_loop mw md (map as_dict ts) st = Inr st' \<Longrightarrow> span_inv st b \<Longrightarrow>
     sorted (b # map tw_start ts) \<Longrightarrow> \<forall>t \<in> set ts. tw_start t \<le> tw_end t \<Longrightarrow>
     \<exists>b'. span_inv st' b'"
proof (induction ts arbitrary: st b)
  case Nil
  then show ?case by auto
next
  case (Cons t ts)
  have "span_inv (group_step mw md st (tw_text t) (tw_start t) (tw_end t) (map as_dict ts = [])) (tw_start t)"
    using Cons.prems by (intro step_span_inv) auto
  moreover have "sorted (tw_start t # map tw_start ts)" "\<forall>t \<in> set ts. tw_start t \<le> tw_end t"
    using Cons.prems by simp_all
  ultimately show ?case
    using Cons.IH Cons.prems(1) by simp
qed

lemma finish_span:
  "span_inv st b \<Longrightarrow> \<forall>c \<in> set (group_finish st). \<exists>e. c_end c = Some e \<and> c_start c \<le> e"
  by (auto simp: span_inv_def group_finish_def mk_caption_def split: option.splits)

lemma step_count_inv:
  "count_inv mw st \<Longrightarrow> 1 \<le> mw \<Longrightarrow> count_inv mw (group_step mw md st wt ws we False)"
  by (auto simp: count_inv_def group_step_def Let_def mk_caption_def)

lemma finish_count:
  "count_inv mw st \<Longrightarrow>
     (\<forall>c \<in> set (butlast (group_finish st)). int (length (c_words c)) \<le> mw) \<and>
     (\<forall>c \<in> set (group_finish st). int (length (c_words c)) \<le> mw + 1)"
  by (auto simp: count_inv_def group_finish_def mk_caption_def split: option.splits
        dest: in_set_butlastD)

lemma last_step_count:
  "count_inv mw st \<Longrightarrow> 1 \<le> mw \<Longrightarrow>
     (\<forall>c \<in> set (butlast (group_finish (group_step mw md st wt ws we True))). int (length (c_words c)) \<le> mw) \<and>
     (\<forall>c \<in> set (group_finish (group_step mw md st wt ws we True)). int (length (c_words c)) \<le> mw + 1)"
  by (auto simp: count_inv_def group_finish_def group_step_def Let_def mk_caption_def)

lemma loop_count:
  "group_loop mw md (map as_dict ts) st = Inr st' \<Longrightarrow> count_inv mw st \<Longrightarrow> 1 \<le> mw \<Longrightarrow>
     (\<forall>c \<in> set (butlast (group_finish st')). int (length (c_words c)) \<le> mw) \<and>
     (\<forall>c \<in> set (group_finish st'). int (length (c_words c)) \<le> mw + 1)"
proof (induction ts arbitrary: st)
  case Nil
  then show ?case using finish_count by simp
next
  case (Cons t ts)
  show ?case
  proof (cases "ts = []")
    case True
    then have "st' = group_step mw md st (tw_text t) (tw_start t) (tw_end t) True"
      using Cons.prems(1) by simp
    then show ?thesis using last_step_count[OF Cons.prems(2,3)] by simp
  next
    case False
    then have "count_inv mw (group_step mw md st (tw_text t) (tw_start t) (tw_end t) (map as_dict ts = []))"
      using step_count_inv[OF Cons.prems(2,3)] by simp
    then show ?thesis using Cons.IH Cons.prems(1,3) by simp
  qed
qed

lemma step_text_inv:
  "text_inv (grouped_captions st) \<Longrightarrow> text_inv (grouped_captions (group_step mw md st wt ws we lastw))"
  by (auto simp: text_inv_def group_step_def Let_def mk_caption_def)

lemma loop_text_inv:
  "group_loop mw md (map as_dict ts) st = Inr st' \<Longrightarrow> text_inv (grouped_captions st) \<Longrightarrow>
     text_inv (grouped_captions st')"
  by (induction ts arbitrary: st) (simp_all add: step_text_inv)

lemma finish_text_inv:
  "text_inv (grouped_captions st) \<Longrightarrow> text_inv (group_finish st)"
  by (auto simp: text_inv_def group_finish_def mk_caption_def split: option.splits)


lemma group_words_as_dict:
  "group_words_into_captions (map as_dict ts) mw md = Inr bs \<longleftrightarrow>
     (ts = [] \<and> bs = [] \<or>
      ts \<noteq> [] \<and> (\<exists>st'. group_loop mw md (map as_dict ts) (init_state (tw_start (hd ts)) (tw_end (hd ts))) = Inr st'
           \<and> bs = group_finish st'))"
  by (cases ts) (auto simp: group_words_into_captions_def getitem_def as_dict_def init_state_def
       split: sum.splits)

lemma init_invs:
  "group_ok (init_state s e)" "start_inv (init_state s e) b" "end_inv (init_state s e) b"
  "span_inv (init_state s e) b" "count_inv mw (init_state s e) = (0 \<le> mw)"
  "text_inv (grouped_captions (init_state s e))" "flat_words (init_state s e) = []"
  by (simp_all add: init_state_def group_ok_def start_inv_def end_inv_def span_inv_def
        count_inv_def text_inv_def flat_words_def)

lemma group_loop_raises_iff:
  "(\<exists>st'. group_loop mw md ws st = Inr st') \<longleftrightarrow> (\<forall>w \<in> set ws. usable_word w)"
proof (induction ws arbitrary: st)
  case Nil
  then show ?case by simp
next
  case (Cons w ws)
  show ?case
  proof (cases "usable_word w")
    case True
    then obtain t s e where "w_text w = Some (Str t)" "w_start w = Some s" "w_end w = Some e"
      by (cases "w_text w"; cases "the (w_text w)") (auto simp: usable_word_def has_fields_def)
    then show ?thesis using Cons.IH True
      by (simp add: group_loop.simps getitem_def)
  next
    case False
    then have "\<exists>e. group_loop mw md (w # ws) st = Inl e"
      by (auto simp: usable_word_def has_fields_def group_loop.simps getitem_def
            split: option.splits text_value.splits)
    then show ?thesis using False by auto
  qed
qed

lemma group_loop_errors:
  "(\<exists>st'. group_loop mw md ws st = Inr st') \<or> (\<exists>k. group_loop mw md ws st = Inl (KeyError k)) \<or>
   group_loop mw md ws st = Inl AttributeError"
proof (induction ws arbitrary: st)
  case Nil
  then show ?case by simp
next
  case (Cons w ws)
  show ?case
    using Cons.IH
    by (auto simp: group_loop.simps getitem_def split: option.splits text_value.splits)
qed

lemma step_run_inv:
  assumes "run_inv st seen"
  shows "run_inv (group_step mw md st (tw_text t) (tw_start t) (tw_end t) lastw) (seen @ [t])"
proof -
  from assms obtain runs r where
    inv: "concat runs @ r = seen" "[] \<notin> set runs"
         "grouped_captions st = map block_of_run runs"
         "current_group_words st = map tw_text r"
         "r \<noteq> [] \<longrightarrow> current_start_time st = Some (tw_start (hd r)) \<and>
                    last_word_end_time st = Some (tw_end (last r))"
    unfolding run_inv_def by blast
  let ?st' = "group_step mw md st (tw_text t) (tw_start t) (tw_end t) lastw"
  have grow: "run_inv st' (seen @ [t])"
    if "grouped_captions st' = grouped_captions st"
       "current_group_words st' = map tw_text (r @ [t])"
       "current_start_time st' = Some (tw_start (hd (r @ [t])))"
       "last_word_end_time st' = Some (tw_end t)" for st'
    unfolding run_inv_def using that inv
    by (intro exI[of _ runs] exI[of _ "r @ [t]"]) simp
  have close_with: "run_inv st' (seen @ [t])"
    if "grouped_captions st' = grouped_captions st @ [block_of_run (r @ [t])]"
       "current_group_words st' = []" for st'
    unfolding run_inv_def using that inv
    by (intro exI[of _ "runs @ [r @ [t]]"] exI[of _ "[]"]) simp
  have close_before: "run_inv st' (seen @ [t])"
    if "r \<noteq> []" "grouped_captions st' = grouped_captions st @ [block_of_run r]"
       "current_group_words st' = [tw_text t]"
       "current_start_time st' = Some (tw_start t)"
       "last_word_end_time st' = Some (tw_end t)" for st'
    unfolding run_inv_def using that inv
    by (intro exI[of _ "runs @ [r]"] exI[of _ "[t]"]) simp
  show ?thesis
  proof (cases "r = []")
    case True
    then have "current_group_words st = []" using inv(4) by simp
    then show ?thesis using True
      by (intro grow) (simp_all add: group_step_def Let_def)
  next
    case False
    then have cur: "current_group_words st \<noteq> []" using inv(4) by simp
    have times: "current_start_time st = Some (tw_start (hd r))"
                "last_word_end_time st = Some (tw_end (last r))"
      using inv(5) False by simp_all
    have hd: "hd (r @ [t]) = hd r" using False by simp
    define E where
      "E = (mw \<le> int (length (current_group_words st)) \<or> md < tw_end t - tw_start (hd r))"
    define P where "P = (\<exists>p \<in> set punctuation_marks. endswith (tw_text t) p)"
    show ?thesis
    proof (cases "E \<or> P \<or> lastw")
      case nofin: False
      have "?st' = st\<lparr>current_group_words := current_group_words st @ [tw_text t],
                       current_start_time := Some (tw_start (hd r)),
                       last_word_end_time := Some (tw_end t)\<rparr>"
        using nofin cur times by (auto simp: group_step_def Let_def E_def P_def)
      then show ?thesis using inv(4) hd by (intro grow) simp_all
    next
      case fin: True
      show ?thesis
      proof (cases "\<not> lastw \<and> E")
        case True
        have "?st' = \<lparr>grouped_captions = grouped_captions st @
                         [mk_caption (tw_start (hd r)) (Some (tw_end (last r)))
                            (current_group_words st)],
                      current_group_words = [tw_text t],
                      current_start_time = Some (tw_start t),
                      last_word_end_time = Some (tw_end t)\<rparr>"
          using True cur times by (auto simp: group_step_def Let_def E_def P_def)
        then show ?thesis using False inv(4)
          by (intro close_before) (simp_all add: block_of_run_def)
      next
        case F: False
        have "?st' = \<lparr>grouped_captions = grouped_captions st @
                         [mk_caption (tw_start (hd r)) (Some (tw_end t))
                            (current_group_words st @ [tw_text t])],
                      current_group_words = [],
                      current_start_time = None,
                      last_word_end_time = None\<rparr>"
          using F fin cur times by (auto simp: group_step_def Let_def E_def P_def)
        then show ?thesis using hd inv(4)
          by (intro close_with) (simp_all add: block_of_run_def)
      qed
    qed
  qed
qed

lemma loop_run_inv:
  "group_loop mw md (map as_dict ts) st = Inr st' \<Longrightarrow> run_inv st seen \<Longrightarrow>
     run_inv st' (seen @ ts)"
proof (induction ts arbitrary: st seen)
  case Nil
  then show ?case by simp
next
  case (Cons t ts)
  let ?st1 = "group_step mw md st (tw_text t) (tw_start t) (tw_end t) (map as_dict ts = [])"
  have step: "run_inv ?st1 (seen @ [t])"
    using Cons.prems(2) by (rule step_run_inv)
  have loop: "group_loop mw md (map as_dict ts) ?st1 = Inr st'"
    using Cons.prems(1) by simp
  from Cons.IH[OF loop step] show ?case by simp
qed

lemma finish_run_inv:
  assumes "run_inv st seen"
  shows "\<exists>runs. concat runs = seen \<and> [] \<notin> set runs \<and> group_finish st = map block_of_run runs"
proof -
  from assms obtain runs r where
    inv: "concat runs @ r = seen" "[] \<notin> set runs"
         "grouped_captions st = map block_of_run runs"
         "current_group_words st = map tw_text r"
         "r \<noteq> [] \<longrightarrow> current_start_time st = Some (tw_start (hd r)) \<and>
                    last_word_end_time st = Some (tw_end (last r))"
    unfolding run_inv_def by blast
  show ?thesis
  proof (cases "r = []")
    case True
    then have "group_finish st = map block_of_run runs"
      using inv(3,4) by (simp add: group_finish_def split: option.splits)
    then show ?thesis using inv(1,2) True by (intro exI[of _ runs]) simp
  next
    case False
    then have "group_finish st = map block_of_run (runs @ [r])"
      using inv(3,4,5) by (simp add: group_finish_def block_of_run_def)
    then show ?thesis using inv(1,2) False by (intro exI[of _ "runs @ [r]"]) simp
  qed
qed

lemma init_run_inv: "run_inv (init_state s e) []"
  unfolding run_inv_def by (intro exI[of _ "[]"]) (simp add: init_state_def)


subsection \<open>Claim C2\<close>

text \<open>
  C2, as stated, fails: the words of \<open>overlapping_words\<close> are sorted by start and each
  ends after it starts, yet with the default limits (4 words, 4 seconds) the first block
  ends at 3 s and the second at 2 s, so block end times are not non-decreasing.
\<close>

theorem C2_counterexample:
  "group_words_into_captions (map as_dict overlapping_words) 4 4 =
     Inr [mk_caption 0 (Some 3) [''a'', ''b,''], mk_caption 1 (Some 2) [''c'', ''d.'']]"
  by (simp add: overlapping_words_def group_eval)


text \<open>
  C2, amended: for every list of TimedWords sorted by start, \<open>group_words_into_captions\<close>
  returns blocks whose word sequences, concatenated, are the input word sequence (so the
  word counts add up to the input length, and each text is its words joined by spaces);
  the block start times are non-decreasing; and the block end times are non-decreasing
  whenever the input words' end times are.
\<close>

theorem C2_words_kept_in_order:
  assumes "sorted (map tw_start ts)"
  shows "\<exists>bs. group_words_into_captions (map as_dict ts) mw md = Inr bs \<and>
           concat (map c_words bs) = map tw_text ts \<and>
           (\<forall>b \<in> set bs. c_text b = join_space (c_words b)) \<and>
           sum_list (map (\<lambda>b. length (c_words b)) bs) = length ts \<and>
           sorted (map c_start bs) \<and>
           (sorted (map tw_end ts) \<longrightarrow> (\<exists>es. map c_end bs = map Some es \<and> sorted es))"
proof (cases ts)
  case Nil
  then show ?thesis by (simp add: group_words_into_captions_def)
next
  case (Cons t ts')
  define st0 where "st0 = init_state (tw_start (hd ts)) (tw_end (hd ts))"
  obtain st' where loop: "group_loop mw md (map as_dict ts) st0 = Inr st'"
    using group_loop_total by blast
  define bs where "bs = group_finish st'"
  have res: "group_words_into_captions (map as_dict ts) mw md = Inr bs"
  proof -
    have "ts \<noteq> []" using Cons by simp
    then show ?thesis
      unfolding group_words_as_dict using loop st0_def bs_def by blast
  qed
  have ok: "group_ok st'"
    using loop_group_ok[OF loop] by (simp add: st0_def init_invs)
  have words: "concat (map c_words bs) = map tw_text ts"
    using loop_flat_words[OF loop] finish_flat_words[OF ok] by (simp add: bs_def st0_def init_invs)
  have "length (concat (map c_words bs)) = length ts"
    by (simp add: words)
  then have count: "sum_list (map (\<lambda>b. length (c_words b)) bs) = length ts"
    by (simp add: length_concat comp_def)
  have texts: "\<forall>b \<in> set bs. c_text b = join_space (c_words b)"
  proof -
    have "text_inv (grouped_captions st0)" by (simp add: st0_def init_invs)
    then have "text_inv bs"
      unfolding bs_def by (intro finish_text_inv loop_text_inv[OF loop])
    then show ?thesis by (simp add: text_inv_def)
  qed
  have "sorted (tw_start (hd ts) # map tw_start ts)"
    using assms Cons by simp
  then obtain b' where "start_inv st' b'"
    using loop_start_inv[OF loop, of "tw_start (hd ts)"] by (auto simp: st0_def init_invs)
  then have starts: "sorted (map c_start bs)"
    unfolding bs_def by (rule finish_start_sorted)
  have ends: "\<exists>es. map c_end bs = map Some es \<and> sorted es" if "sorted (map tw_end ts)"
  proof -
    have "sorted (tw_end (hd ts) # map tw_end ts)"
      using that Cons by simp
    then obtain b' where "end_inv st' b'"
      using loop_end_inv[OF loop, of "tw_end (hd ts)"] by (auto simp: st0_def init_invs)
    then show ?thesis unfolding bs_def by (rule finish_end_sorted)
  qed
  show ?thesis
    using res words texts count starts ends by blast
qed


text \<open>Witness for C2: the specification's example, whose starts and ends are both sorted.\<close>

theorem C2_words_kept_in_order_witness:
  "sorted (map tw_start bonjour) \<and> sorted (map tw_end bonjour) \<and>
   (\<exists>bs. group_words_into_captions (map as_dict bonjour) 4 4 = Inr bs \<and>
      concat (map c_words bs) = map tw_text bonjour \<and>
      sorted (map c_start bs) \<and>
      (\<exists>es. map c_end bs = map Some es \<and> sorted es))"
proof -
  have h1: "sorted (map tw_start bonjour)" by (simp add: bonjour_def)
  have h2: "sorted (map tw_end bonjour)" by (simp add: bonjour_def)
  from C2_words_kept_in_order[OF h1, of 4 4] h1 h2 show ?thesis by blast
qed

subsection \<open>Claim C3\<close>

text \<open>
  C3, as stated, fails: with \<open>max_words = 4\<close> the fifth and last word of \<open>five_words\<close>
  is force-included in the group that already holds four words, and the only block
  returned has five words.
\<close>

theorem C3_counterexample:
  "group_words_into_captions (map as_dict five_words) 4 4 =
     Inr [mk_caption 0 (Some 1) [''a'', ''b'', ''c'', ''d'', ''e'']]"
  by (simp add: five_words_def group_eval)


text \<open>
  C3, amended: for every list of TimedWords (each with \<open>end \<ge> start\<close>, sorted by start) and
  every \<open>max_words \<ge> 1\<close>, every block has a numeric end with \<open>end \<ge> start\<close>; every block
  but the last has at most \<open>max_words\<close> words, and the last block, into which the final
  input word is force-included, has at most \<open>max_words + 1\<close>.
\<close>

theorem C3_blocks_bounded:
  assumes "1 \<le> mw" "sorted (map tw_start ts)" "\<forall>t \<in> set ts. tw_start t \<le> tw_end t"
  shows "\<exists>bs. group_words_into_captions (map as_dict ts) mw md = Inr bs \<and>
           (\<forall>b \<in> set bs. \<exists>e. c_end b = Some e \<and> c_start b \<le> e) \<and>
           (\<forall>b \<in> set (butlast bs). int (length (c_words b)) \<le> mw) \<and>
           (\<forall>b \<in> set bs. int (length (c_words b)) \<le> mw + 1)"
proof (cases ts)
  case Nil
  then show ?thesis by (simp add: group_words_into_captions_def)
next
  case (Cons t ts')
  define st0 where "st0 = init_state (tw_start (hd ts)) (tw_end (hd ts))"
  obtain st' where loop: "group_loop mw md (map as_dict ts) st0 = Inr st'"
    using group_loop_total by blast
  define bs where "bs = group_finish st'"
  have res: "group_words_into_captions (map as_dict ts) mw md = Inr bs"
  proof -
    have "ts \<noteq> []" using Cons by simp
    then show ?thesis
      unfolding group_words_as_dict using loop st0_def bs_def by blast
  qed
  have "sorted (tw_start (hd ts) # map tw_start ts)"
    using assms(2) Cons by simp
  then obtain b' where "span_inv st' b'"
    using loop_span_inv[OF loop, of "tw_start (hd ts)"] assms(3) by (auto simp: st0_def init_invs)
  then have span: "\<forall>b \<in> set bs. \<exists>e. c_end b = Some e \<and> c_start b \<le> e"
    unfolding bs_def by (rule finish_span)
  have "count_inv mw st0"
    using assms(1) by (simp add: st0_def init_invs)
  then have "(\<forall>b \<in> set (butlast bs). int (length (c_words b)) \<le> mw) \<and>
           (\<forall>b \<in> set bs. int (length (c_words b)) \<le> mw + 1)"
    unfolding bs_def using loop_count[OF loop] assms(1) by blast
  then show ?thesis using res span by blast
qed


text \<open>Witness for C3: \<open>five_words\<close> with a cap of four words.\<close>

theorem C3_blocks_bounded_witness:
  "(1::int) \<le> 4 \<and> sorted (map tw_start five_words) \<and>
   list_all (\<lambda>t. tw_start t \<le> tw_end t) five_words \<and>
   (\<exists>bs. group_words_into_captions (map as_dict five_words) 4 4 = Inr bs \<and>
      (\<forall>b \<in> set bs. \<exists>e. c_end b = Some e \<and> c_start b \<le> e) \<and>
      (\<forall>b \<in> set (butlast bs). int (length (c_words b)) \<le> 4) \<and>
      (\<forall>b \<in> set bs. int (length (c_words b)) \<le> 4 + 1))"
proof -
  have h1: "(1::int) \<le> 4" by simp
  have h2: "sorted (map tw_start five_words)" by (simp add: five_words_def)
  have h3: "\<forall>t \<in> set five_words. tw_start t \<le> tw_end t" by (simp add: five_words_def)
  have h4: "list_all (\<lambda>t. tw_start t \<le> tw_end t) five_words" by (simp add: five_words_def)
  from C3_blocks_bounded[OF h1 h2 h3, of 4] h1 h2 h4 show ?thesis by blast
qed

section \<open>Properties of \<open>format_time_srt\<close>\<close>

text \<open>Rules that evaluate the float model and the formatting on numerals.\<close>

lemma floor_numeral_div: "\<lfloor>numeral a / numeral b :: rat\<rfloor> = numeral a div numeral b"
  by (metis floor_divide_of_int_eq of_int_numeral)

lemma ceiling_numeral_div: "\<lceil>numeral a / numeral b :: rat\<rceil> = - ((- numeral a) div numeral b)"
proof -
  have "- (numeral a / numeral b :: rat) = of_int (- numeral a) / of_int (numeral b)"
    by simp
  then have "\<lfloor>- (numeral a / numeral b :: rat)\<rfloor> = (- numeral a) div numeral b"
    by (simp only: floor_divide_of_int_eq)
  then show ?thesis by (simp add: ceiling_def)
qed

lemmas float_eval = round_double_def float_mul_def binade_def pow2_def py_round_def py_int_def
  bit_length.simps floor_numeral_div ceiling_numeral_div Let_def

lemma replicate_small: "replicate 2 x = [x, x]" "replicate 3 x = [x, x, x]"
  by (simp_all add: numeral_2_eq_2 numeral_3_eq_3)

lemmas format_eval = format_0d_def zero_pad_def str_nat.simps digit_char_def replicate_small


lemma py_round_bounds: "\<lfloor>x\<rfloor> \<le> py_round x" "py_round x \<le> \<lfloor>x\<rfloor> + 1"
  by (simp_all add: py_round_def Let_def)

lemma py_round_mono:
  assumes "x \<le> y"
  shows "py_round x \<le> py_round y"
proof (cases "\<lfloor>x\<rfloor> = \<lfloor>y\<rfloor>")
  case True
  then have "x - of_int \<lfloor>x\<rfloor> \<le> y - of_int \<lfloor>y\<rfloor>" using assms by simp
  then show ?thesis using True by (auto simp: py_round_def Let_def)
next
  case False
  then have "\<lfloor>x\<rfloor> < \<lfloor>y\<rfloor>" using floor_mono[OF assms] by linarith
  then show ?thesis using py_round_bounds(2)[of x] py_round_bounds(1)[of y] by linarith
qed

lemma py_round_of_int [simp]: "py_round (of_int k) = k"
  by (simp add: py_round_def)

lemma py_round_int_mult: "py_round (of_int a * 2 ^ k) = a * 2 ^ k"
  using py_round_of_int[of "a * 2 ^ k"] by simp

lemma py_round_near: "\<bar>of_int (py_round x) - x\<bar> \<le> 1 / 2"
  unfolding py_round_def Let_def by (auto simp: abs_if) linarith+

text \<open>
  The definitions are the binary64 notions they are named after: \<open>binade x\<close> is the
  exponent of \<open>x\<close>, and \<open>round_double x\<close> differs from \<open>x\<close> by at most half a unit in the last
  place.  Below \<open>2^53\<close> every whole number is a float, so rounding never crosses one.
\<close>

lemma bit_length_le: "n < 2 ^ k \<Longrightarrow> bit_length n \<le> k"
proof (induction k arbitrary: n)
  case 0
  then show ?case by (simp add: bit_length.simps)
next
  case (Suc k)
  show ?case
  proof (cases "n = 0")
    case True
    then show ?thesis by (simp add: bit_length.simps)
  next
    case False
    have "n div 2 < 2 ^ k" using Suc.prems by simp
    then have "bit_length (n div 2) \<le> k" by (rule Suc.IH)
    then show ?thesis using False by (subst bit_length.simps) simp
  qed
qed

lemma bit_length_bounds: "0 < n \<Longrightarrow> 2 ^ (bit_length n - 1) \<le> n \<and> n < 2 ^ bit_length n"
proof (induction n rule: bit_length.induct)
  case (1 n)
  show ?case
  proof (cases "n div 2 = 0")
    case True
    then have "n = 1" using "1.prems" by linarith
    then show ?thesis by (simp add: bit_length.simps)
  next
    case False
    define b where "b = bit_length (n div 2)"
    have ih: "2 ^ (b - 1) \<le> n div 2" "n div 2 < 2 ^ b"
      using "1.IH" "1.prems" False by (simp_all add: b_def)
    have pos: "0 < b"
      unfolding b_def using False by (subst bit_length.simps) simp
    have bl: "bit_length n = Suc b"
      unfolding b_def using "1.prems" by (subst bit_length.simps) simp
    have p: "(2::nat) ^ b = 2 * 2 ^ (b - 1)"
      using pos by (cases b) simp_all
    have "2 * (n div 2) \<le> n" by simp
    then have lo: "(2::nat) ^ b \<le> n" using ih(1) p by linarith
    have "n < 2 * (n div 2) + 2" by linarith
    then have hi: "n < 2 * 2 ^ b" using ih(2) by linarith
    show ?thesis using lo hi by (simp add: bl)
  qed
qed

lemma bit_length_bounds_rat:
  assumes "0 < n"
  shows "(2::rat) ^ (bit_length n - 1) \<le> of_nat n" "(of_nat n :: rat) + 1 \<le> 2 ^ bit_length n"
proof -
  from bit_length_bounds[OF assms] have b: "2 ^ (bit_length n - 1) \<le> n" "n + 1 \<le> 2 ^ bit_length n"
    by simp_all
  have "(of_nat (2 ^ (bit_length n - 1)) :: rat) \<le> of_nat n"
    using b(1) by (simp only: of_nat_le_iff)
  then show "(2::rat) ^ (bit_length n - 1) \<le> of_nat n" by simp
  have "(of_nat (n + 1) :: rat) \<le> of_nat (2 ^ bit_length n)"
    using b(2) by (simp only: of_nat_le_iff)
  then show "(of_nat n :: rat) + 1 \<le> 2 ^ bit_length n" by simp
qed

lemma bit_length_pos: "0 < n \<Longrightarrow> 0 < bit_length n"
  by (subst bit_length.simps) simp

lemma binade_bounds:
  assumes "0 < x"
  shows "pow2 (binade x) \<le> x \<and> x < pow2 (binade x + 1)"
proof (cases "1 \<le> x")
  case True
  define n where "n = nat \<lfloor>x\<rfloor>"
  define b where "b = bit_length n"
  have n0: "0 < n" using True by (simp add: n_def)
  have fl: "(of_nat n :: rat) = of_int \<lfloor>x\<rfloor>" using True by (simp add: n_def)
  have n1: "of_nat n \<le> x" unfolding fl by simp
  have n2: "x < of_nat n + 1" unfolding fl by linarith
  note br = bit_length_bounds_rat[OF n0, folded b_def]
  have pos: "0 < b" unfolding b_def using n0 by (rule bit_length_pos)
  have bin: "binade x = int b - 1" using True by (simp add: binade_def n_def b_def)
  have p1: "pow2 (binade x) = 2 ^ (b - 1)"
    using pos by (simp add: bin pow2_def nat_diff_distrib)
  have p2: "pow2 (binade x + 1) = 2 ^ b"
    by (simp add: bin pow2_def)
  show ?thesis unfolding p1 p2 using br n1 n2 by linarith
next
  case False
  define m where "m = nat (\<lceil>1 / x\<rceil> - 1)"
  define b where "b = bit_length m"
  have x1: "1 < 1 / x" using assms False by simp
  have "of_int 1 < 1 / x" using x1 by (simp only: of_int_1)
  then have "1 < \<lceil>1 / x\<rceil>" by (simp only: less_ceiling_iff)
  then have c2: "2 \<le> \<lceil>1 / x\<rceil>" by linarith
  have "0 < \<lceil>1 / x\<rceil> - 1" using c2 by linarith
  then have m0: "0 < m" by (simp only: m_def zero_less_nat_eq)
  have "0 \<le> \<lceil>1 / x\<rceil> - 1" using c2 by linarith
  then have "(of_nat m :: rat) = of_int (\<lceil>1 / x\<rceil> - 1)" unfolding m_def by (rule of_nat_nat)
  then have cm: "(of_nat m :: rat) = of_int \<lceil>1 / x\<rceil> - 1" by simp
  have m1: "of_nat m < 1 / x" unfolding cm by linarith
  have m2: "1 / x \<le> of_nat m + 1" unfolding cm by simp
  note br = bit_length_bounds_rat[OF m0, folded b_def]
  have pos: "0 < b" unfolding b_def using m0 by (rule bit_length_pos)
  have bin: "binade x = - int b" using False by (simp add: binade_def m_def b_def)
  have a: "1 / x \<le> 2 ^ b" using m2 br(2) by linarith
  have b': "2 ^ (b - 1) < 1 / x" using m1 br(1) by linarith
  have p1: "pow2 (binade x) = 1 / 2 ^ b"
    using pos by (simp add: bin pow2_def)
  have p2: "pow2 (binade x + 1) = 1 / 2 ^ (b - 1)"
  proof (cases "b = 1")
    case True
    then show ?thesis by (simp add: bin pow2_def)
  next
    case F: False
    then have "nat (int b - 1) = b - 1" by simp
    then show ?thesis using F pos by (simp add: bin pow2_def)
  qed
  have "1 / 2 ^ b \<le> x"
    using a assms by (simp add: field_simps)
  moreover have "x < 1 / 2 ^ (b - 1)"
    using b' assms by (simp add: field_simps)
  ultimately show ?thesis using p1 p2 by simp
qed

lemma binade_le_52:
  assumes "0 < x" "x < 2 ^ 53"
  shows "binade x \<le> 52"
proof (cases "1 \<le> x")
  case True
  have "\<lfloor>x\<rfloor> < 2 ^ 53" using assms(2) by (simp add: floor_less_iff)
  then have "nat \<lfloor>x\<rfloor> < 2 ^ 53" using True by (simp add: nat_less_iff)
  then have "bit_length (nat \<lfloor>x\<rfloor>) \<le> 53" by (rule bit_length_le)
  then show ?thesis using True by (simp add: binade_def)
next
  case False
  then show ?thesis by (simp add: binade_def)
qed

lemma round_double_near_floor:
  assumes "0 \<le> x" "x < 2 ^ 53"
  shows "of_int \<lfloor>x\<rfloor> \<le> round_double x \<and> round_double x \<le> of_int \<lfloor>x\<rfloor> + 1"
proof (cases "x = 0")
  case True
  then show ?thesis by (simp add: round_double_def)
next
  case False
  then have pos: "0 < x" using assms(1) by simp
  define e where "e = max (binade x) (- 1022) - 52"
  define k where "k = nat (- e)"
  have e0: "e \<le> 0" using binade_le_52[OF pos assms(2)] by (simp add: e_def)
  have u: "pow2 e = 1 / 2 ^ k"
    using e0 by (cases "e = 0") (simp_all add: pow2_def k_def)
  have rd: "round_double x = of_int (py_round (x * 2 ^ k)) / 2 ^ k"
    using pos u by (simp add: round_double_def Let_def e_def[symmetric])
  have lo: "of_int \<lfloor>x\<rfloor> * (2::rat) ^ k \<le> x * 2 ^ k"
    by (simp add: mult_right_mono)
  have "x \<le> of_int \<lfloor>x\<rfloor> + 1" by linarith
  then have hi: "x * (2::rat) ^ k \<le> (of_int \<lfloor>x\<rfloor> + 1) * 2 ^ k"
    by (intro mult_right_mono) simp_all
  have "py_round (of_int \<lfloor>x\<rfloor> * 2 ^ k) \<le> py_round (x * 2 ^ k)"
    using lo by (rule py_round_mono)
  then have l2: "\<lfloor>x\<rfloor> * 2 ^ k \<le> py_round (x * 2 ^ k)"
    by (simp only: py_round_int_mult)
  have "py_round (x * 2 ^ k) \<le> py_round (of_int (\<lfloor>x\<rfloor> + 1) * 2 ^ k)"
    using hi by (intro py_round_mono) simp
  then have h2: "py_round (x * 2 ^ k) \<le> (\<lfloor>x\<rfloor> + 1) * 2 ^ k"
    by (simp only: py_round_int_mult)
  have "(of_int (\<lfloor>x\<rfloor> * 2 ^ k) :: rat) \<le> of_int (py_round (x * 2 ^ k))"
    using l2 by (simp only: of_int_le_iff)
  then have a: "of_int \<lfloor>x\<rfloor> \<le> round_double x"
    by (simp add: rd field_simps)
  have "(of_int (py_round (x * 2 ^ k)) :: rat) \<le> of_int ((\<lfloor>x\<rfloor> + 1) * 2 ^ k)"
    using h2 by (simp only: of_int_le_iff)
  then have b: "round_double x \<le> of_int \<lfloor>x\<rfloor> + 1"
    by (simp add: rd field_simps)
  show ?thesis using a b by simp
qed


lemma pow2_pos: "0 < pow2 e"
  by (simp add: pow2_def)

lemma round_double_nonneg: "0 \<le> x \<Longrightarrow> 0 \<le> round_double x"
proof -
  assume x: "0 \<le> x"
  have "0 \<le> py_round y" if "0 \<le> y" for y
    using that py_round_bounds(1)[of y] by (simp add: order_trans[of 0 "\<lfloor>y\<rfloor>"])
  then have "0 \<le> py_round (\<bar>x\<bar> / pow2 e)" for e
    using pow2_pos[of e] by (simp add: less_imp_le)
  then show ?thesis
    using x pow2_pos by (simp add: round_double_def Let_def sgn_if less_imp_le)
qed

lemma round_double_error:
  assumes "x \<noteq> 0"
  shows "\<bar>round_double x - x\<bar> \<le> pow2 (max (binade \<bar>x\<bar>) (- 1022) - 52) / 2"
proof -
  define u where "u = pow2 (max (binade \<bar>x\<bar>) (- 1022) - 52)"
  define N where "N = (of_int (py_round (\<bar>x\<bar> / u)) :: rat)"
  have u: "0 < u" by (simp add: u_def pow2_pos)
  have rd: "round_double x = sgn x * (N * u)"
    using assms by (simp add: round_double_def Let_def u_def N_def)
  have "x = sgn x * (\<bar>x\<bar> / u * u)" using u by (simp add: sgn_if)
  then have "round_double x - x = sgn x * ((N - \<bar>x\<bar> / u) * u)"
    unfolding rd by (simp add: algebra_simps)
  then have "\<bar>round_double x - x\<bar> = \<bar>N - \<bar>x\<bar> / u\<bar> * u"
    using assms u by (simp add: abs_mult abs_sgn_eq)
  also have "\<dots> \<le> 1 / 2 * u"
    using py_round_near[of "\<bar>x\<bar> / u"] u unfolding N_def by (intro mult_right_mono) simp_all
  finally show ?thesis by (simp add: u_def)
qed

lemma hms_split:
  fixes T :: int
  assumes "0 \<le> T"
  defines "h \<equiv> T div 3600000"
      and "m \<equiv> (T mod 3600000) div 60000"
      and "s \<equiv> ((T mod 3600000) mod 60000) div 1000"
      and "ms \<equiv> ((T mod 3600000) mod 60000) mod 1000"
  shows "0 \<le> h" "0 \<le> m" "m < 60" "0 \<le> s" "s < 60" "0 \<le> ms" "ms < 1000"
        "3600000 * h + 60000 * m + 1000 * s + ms = T"
proof -
  let ?r = "T mod 3600000"
  let ?r2 = "?r mod 60000"
  have r: "0 \<le> ?r" "?r < 3600000" by simp_all
  have r2: "0 \<le> ?r2" "?r2 < 60000" by simp_all
  show "0 \<le> h" using assms(1) by (simp add: h_def)
  show "0 \<le> m" using r by (simp add: m_def)
  show "m < 60" unfolding m_def using r(2) by linarith
  show "0 \<le> s" using r2 by (simp add: s_def)
  show "s < 60" unfolding s_def using r2(2) by linarith
  show "0 \<le> ms" by (simp add: ms_def)
  show "ms < 1000" by (simp add: ms_def)
  have a: "T = 3600000 * h + ?r" by (simp add: h_def)
  have b: "?r = 60000 * m + ?r2" by (simp add: m_def)
  have c: "?r2 = 1000 * s + ms" by (simp add: s_def ms_def)
  show "3600000 * h + 60000 * m + 1000 * s + ms = T"
    using a b c by linarith
qed

lemma length_str_nat: "length (str_nat n) \<ge> 1"
  by (induction n rule: str_nat.induct) (subst str_nat.simps, simp)

lemma length_str_nat_lt10: "n < 10 \<Longrightarrow> length (str_nat n) = 1"
  by (subst str_nat.simps) simp

lemma length_str_nat_lt100: "n < 100 \<Longrightarrow> length (str_nat n) \<le> 2"
  by (subst str_nat.simps) (simp add: length_str_nat_lt10)

lemma length_str_nat_lt1000: "n < 1000 \<Longrightarrow> length (str_nat n) \<le> 3"
  apply (subst str_nat.simps) 
  apply (auto)
  using length_str_nat_lt100[of "n div 10"] by simp

lemma length_zero_pad: "length (zero_pad w s) = max w (length s)"
  by (simp add: zero_pad_def)

lemma length_format_0d_ge: "0 \<le> n \<Longrightarrow> length (format_0d w n) \<ge> w"
  by (simp add: format_0d_def length_zero_pad)

lemma length_format_0d_2: "0 \<le> n \<Longrightarrow> n < 100 \<Longrightarrow> length (format_0d 2 n) = 2"
  using length_str_nat_lt100[of "nat n"] by (simp add: format_0d_def length_zero_pad)

lemma length_format_0d_3: "0 \<le> n \<Longrightarrow> n < 1000 \<Longrightarrow> length (format_0d 3 n) = 3"
  using length_str_nat_lt1000[of "nat n"] by (simp add: format_0d_def length_zero_pad)

lemma float_mul_small:
  assumes "0 \<le> x" "x < 2 ^ 53"
  shows "round_double x < pow2 1024"
proof -
  have "round_double x \<le> of_int \<lfloor>x\<rfloor> + 1"
    using round_double_near_floor[OF assms] by simp
  moreover have "(of_int \<lfloor>x\<rfloor> :: rat) \<le> x" by simp
  moreover have "(2::rat) ^ 53 + 1 < pow2 1024" by (simp add: pow2_def)
  ultimately show ?thesis using assms(2) by linarith
qed

subsection \<open>Claim C7\<close>





section \<open>Properties of the SRT conversion\<close>

lemma round3_mono: "x \<le> y \<Longrightarrow> round3 x \<le> round3 y"
  unfolding round3_def using py_round_mono[of "x * 1000" "y * 1000"]
  by (simp add: divide_right_mono)

lemma round3_millis [simp]: "round3 (of_int k / 1000) = of_int k / 1000"
  by (simp add: round3_def)

lemma parse_srt_time_millis: "\<exists>k. parse_srt_time int_of s = of_int k / 1000"
proof -
  have z: "\<exists>k. (0::rat) = of_int k / 1000" by (rule exI[of _ 0]) simp
  have v: "\<exists>k. of_int a + of_int b / 1000 = (of_int k :: rat) / 1000" for a b
    by (rule exI[of _ "a * 1000 + b"]) simp
  have "parse_srt_time int_of s = 0 \<or>
        (\<exists>a b. parse_srt_time int_of s = of_int a + of_int b / 1000)"
    unfolding parse_srt_time_def Let_def
    by (simp split: list.splits option.splits del: of_int_add of_int_mult) blast
  then show ?thesis using z v by auto
qed

lemma round3_parse [simp]: "round3 (parse_srt_time int_of s) = parse_srt_time int_of s"
proof -
  obtain k where "parse_srt_time int_of s = of_int k / 1000"
    using parse_srt_time_millis by blast
  then show ?thesis by (simp only: round3_millis)
qed

lemma words_loop_text: "map tw_text (words_loop c t e ws) = ws"
  by (induction ws arbitrary: c) (simp_all add: Let_def)

lemma words_loop_length: "length (words_loop c t e ws) = length ws"
  by (induction ws arbitrary: c) (simp_all add: Let_def)

lemma words_loop_hd: "ws \<noteq> [] \<Longrightarrow> tw_start (hd (words_loop c t e ws)) = round3 c"
  by (cases ws) (simp_all add: Let_def)

lemma words_loop_chain:
  "Suc i < length (words_loop c t e ws) \<Longrightarrow>
     tw_start (words_loop c t e ws ! Suc i) = tw_end (words_loop c t e ws ! i)"
proof (induction ws arbitrary: c i)
  case Nil
  then show ?case by simp
next
  case (Cons w ws)
  let ?c' = "min (c + t) e"
  show ?case
  proof (cases i)
    case 0
    then have ne: "ws \<noteq> []" using Cons.prems by (auto simp: Let_def)
    then have "words_loop ?c' t e ws \<noteq> []"
      using words_loop_length[of ?c' t e ws] by auto
    then have "words_loop ?c' t e ws ! 0 = hd (words_loop ?c' t e ws)"
      by (simp add: hd_conv_nth)
    then show ?thesis using 0 words_loop_hd[OF ne, of ?c' t e]
      by (simp add: Let_def)
  next
    case (Suc j)
    then show ?thesis using Cons.IH[of j ?c'] Cons.prems by (simp add: Let_def)
  qed
qed

lemma words_loop_end_le:
  "round3 e = e \<Longrightarrow> w \<in> set (words_loop c t e ws) \<Longrightarrow> tw_end w \<le> e"
proof (induction ws arbitrary: c)
  case Nil
  then show ?case by simp
next
  case (Cons a ws)
  have "round3 (min (c + t) e) \<le> round3 e" by (rule round3_mono) simp
  then show ?case using Cons by (auto simp: Let_def)
qed

lemma words_loop_ordered:
  "0 \<le> t \<Longrightarrow> c \<le> e \<Longrightarrow> w \<in> set (words_loop c t e ws) \<Longrightarrow> tw_start w \<le> tw_end w"
proof (induction ws arbitrary: c)
  case Nil
  then show ?case by simp
next
  case (Cons a ws)
  have "c \<le> min (c + t) e" using Cons.prems by simp
  then have hd: "round3 c \<le> round3 (min (c + t) e)" by (rule round3_mono)
  have le: "min (c + t) e \<le> e" by simp
  from Cons.prems(3) consider
      "w = \<lparr>tw_text = a, tw_start = round3 c, tw_end = round3 (min (c + t) e)\<rparr>"
    | "w \<in> set (words_loop (min (c + t) e) t e ws)"
    by (auto simp: Let_def)
  then show ?case
  proof cases
    case 1
    then show ?thesis using hd by simp
  next
    case 2
    then show ?thesis using Cons.IH[OF Cons.prems(1) le] by simp
  qed
qed

lemma words_loop_last:
  "ws \<noteq> [] \<Longrightarrow> 0 \<le> t \<Longrightarrow> c + of_nat (length ws) * t = e \<Longrightarrow>
     tw_end (last (words_loop c t e ws)) = round3 e"
proof (induction ws arbitrary: c)
  case Nil
  then show ?case by simp
next
  case (Cons a ws)
  show ?case
  proof (cases "ws = []")
    case True
    then show ?thesis using Cons.prems by (simp add: Let_def)
  next
    case False
    have "0 \<le> of_nat (length ws) * t" using Cons.prems(2) by simp
    then have m: "min (c + t) e = c + t" using Cons.prems(3) by (simp add: algebra_simps)
    have "(c + t) + of_nat (length ws) * t = e" using Cons.prems(3) by (simp add: algebra_simps)
    then have "tw_end (last (words_loop (c + t) t e ws)) = round3 e"
      using Cons.IH[OF False Cons.prems(2)] by simp
    moreover have "words_loop (c + t) t e ws \<noteq> []"
      using False words_loop_length[of "c + t" t e ws] by auto
    ultimately show ?thesis using m by (simp add: Let_def)
  qed
qed

lemma convert_matches_concat:
  "convert_matches int_of mts acc = acc @ concat (map (block_words int_of) mts)"
  by (induction mts arbitrary: acc) simp_all

lemma words_loop_uniform:
  "0 \<le> t \<Longrightarrow> c + of_nat (length ws) * t \<le> e \<Longrightarrow> i < length ws \<Longrightarrow>
     words_loop c t e ws ! i =
       \<lparr>tw_text = ws ! i, tw_start = round3 (c + of_nat i * t),
        tw_end = round3 (c + of_nat (Suc i) * t)\<rparr>"
proof (induction ws arbitrary: c i)
  case Nil
  then show ?case by simp
next
  case (Cons w ws)
  have "0 \<le> of_nat (length ws) * t" using Cons.prems(1) by simp
  then have le: "c + t \<le> e" using Cons.prems(2) by (simp add: algebra_simps)
  then have m: "min (c + t) e = c + t" by simp
  show ?case
  proof (cases i)
    case 0
    then show ?thesis using m by (simp add: Let_def)
  next
    case (Suc j)
    have "(c + t) + of_nat (length ws) * t \<le> e"
      using Cons.prems(2) by (simp add: algebra_simps)
    moreover have "j < length ws" using Cons.prems(3) Suc by simp
    ultimately have "words_loop (c + t) t e ws ! j =
       \<lparr>tw_text = ws ! j, tw_start = round3 ((c + t) + of_nat j * t),
        tw_end = round3 ((c + t) + of_nat (Suc j) * t)\<rparr>"
      using Cons.IH[OF Cons.prems(1)] by blast
    then show ?thesis using Suc m by (simp add: Let_def algebra_simps)
  qed
qed

subsection \<open>Claim C10\<close>




section \<open>Properties of the subtitle alignment\<close>

lemmas align_eval = create_subtitle_def align_loop.simps align_body_def align_init_def
  align_finish_def strip_def is_space_def ustr_def ends_with_any_def endswith_def
  subtitle_punctuation_def Let_def


lemma align_body_inv:
  assumes "script_line_idx st < length script_lines" "align_inv script_lines st"
  shows "align_inv script_lines
           ((align_body unescape subs offset script_lines st)\<lparr>word_idx := w\<rparr>)"
  using assms
  by (auto simp: align_inv_def align_body_def Let_def take_Suc_conv_app_nth)

lemma align_body_count:
  assumes "word_idx st < length subs" "count_words_inv unescape subs st"
  shows "count_words_inv unescape subs
           ((align_body unescape subs offset script_lines st)\<lparr>word_idx := word_idx st + 1\<rparr>)"
  using assms
  by (auto simp: count_words_inv_def align_body_def Let_def take_Suc_conv_app_nth nonblank_def)

lemma align_loop_inv:
  "align_loop unescape subs offset script_lines st = Inr st' \<Longrightarrow>
     align_inv script_lines st \<Longrightarrow> align_inv script_lines st'"
proof (induction unescape subs offset script_lines st rule: align_loop.induct)
  case (1 unescape subs offset script_lines st)
  show ?case
  proof (cases "word_idx st < length subs \<and> script_line_idx st < length script_lines")
    case True
    then have off: "word_idx st < length offset"
      using "1.prems"(1) by (subst (asm) align_loop.simps) (auto split: if_splits)
    let ?st = "(align_body unescape subs offset script_lines st)\<lparr>word_idx := word_idx st + 1\<rparr>"
    have "align_loop unescape subs offset script_lines ?st = Inr st'"
      using "1.prems"(1) True off by (subst (asm) align_loop.simps) simp
    moreover have "align_inv script_lines ?st"
      using True "1.prems"(2) by (intro align_body_inv) auto
    ultimately show ?thesis using "1.IH" True off by blast
  next
    case False
    then have "st' = st"
      using "1.prems"(1) by (subst (asm) align_loop.simps) auto
    then show ?thesis using "1.prems"(2) by simp
  qed
qed

lemma align_loop_count:
  "align_loop unescape subs offset script_lines st = Inr st' \<Longrightarrow>
     count_words_inv unescape subs st \<Longrightarrow> count_words_inv unescape subs st'"
proof (induction unescape subs offset script_lines st rule: align_loop.induct)
  case (1 unescape subs offset script_lines st)
  show ?case
  proof (cases "word_idx st < length subs \<and> script_line_idx st < length script_lines")
    case True
    then have off: "word_idx st < length offset"
      using "1.prems"(1) by (subst (asm) align_loop.simps) (auto split: if_splits)
    let ?st = "(align_body unescape subs offset script_lines st)\<lparr>word_idx := word_idx st + 1\<rparr>"
    have "align_loop unescape subs offset script_lines ?st = Inr st'"
      using "1.prems"(1) True off by (subst (asm) align_loop.simps) simp
    moreover have "count_words_inv unescape subs ?st"
      using True "1.prems"(2) by (intro align_body_count) auto
    ultimately show ?thesis using "1.IH" True off by blast
  next
    case False
    then have "st' = st"
      using "1.prems"(1) by (subst (asm) align_loop.simps) auto
    then show ?thesis using "1.prems"(2) by simp
  qed
qed

lemma align_loop_total:
  "length subs \<le> length offset \<Longrightarrow> \<exists>st'. align_loop unescape subs offset script_lines st = Inr st'"
proof (induction unescape subs offset script_lines st rule: align_loop.induct)
  case (1 unescape subs offset script_lines st)
  show ?case
  proof (cases "word_idx st < length subs \<and> script_line_idx st < length script_lines")
    case True
    then have off: "word_idx st < length offset" using "1.prems" by simp
    show ?thesis
      using "1.IH"[OF True off "1.prems"] True off by (subst align_loop.simps) simp
  next
    case False
    then show ?thesis by (subst align_loop.simps) auto
  qed
qed

lemma filter_take_le: "length (filter P (take n xs)) \<le> length (filter P xs)"
proof -
  have "length (filter P xs) = length (filter P (take n xs)) + length (filter P (drop n xs))"
    by (metis append_take_drop_id filter_append length_append)
  then show ?thesis by simp
qed

lemma strip_Nil [simp]: "strip [] = []"
  by (simp add: strip_def)

lemma align_init_inv:
  "align_inv script_lines align_init" "count_words_inv unescape subs align_init"
  by (simp_all add: align_inv_def count_words_inv_def align_init_def)

text \<open>
  When the offsets are at least as many as the words, the alignment returns without
  raising.  Whenever it hands back subtitle blocks, block \<open>k\<close> carries exactly segment \<open>k\<close>
  of the reference text: no block holds several segments, and the blocks are never more
  than the segments nor more than the non-blank timed words.  When the warning is logged,
  the last block is the one appended after the loop: it ends at the end of the last
  offset and carries the single segment that was current.
\<close>

lemma create_subtitle_one_segment_per_block:
  "(length subs \<le> length offset \<longrightarrow>
      (\<exists>r. create_subtitle unescape subs offset script_lines = Inr r)) \<and>
   (create_subtitle unescape subs offset script_lines = Inr (Subtitles items warned) \<longrightarrow>
      map e_text items = map strip (take (length items) script_lines) \<and>
      length items \<le> length script_lines \<and>
      length items \<le> length (filter (nonblank unescape) subs) \<and>
      (warned \<longrightarrow> e_end (last items) = snd (last offset) \<and>
                  e_text (last items) = strip (script_lines ! (length items - 1))))"
proof (intro conjI impI)
  assume "length subs \<le> length offset"
  then obtain st' where "align_loop unescape subs offset script_lines align_init = Inr st'"
    using align_loop_total by blast
  then show "\<exists>r. create_subtitle unescape subs offset script_lines = Inr r"
    by (auto simp: create_subtitle_def split: prod.splits)
next
  assume r: "create_subtitle unescape subs offset script_lines = Inr (Subtitles items warned)"
  then obtain st' where
    loop: "align_loop unescape subs offset script_lines align_init = Inr st'" and
    fin: "align_finish offset script_lines st' = (items, warned)"
    by (auto simp: create_subtitle_def split: if_splits sum.splits prod.splits)
  have inv: "align_inv script_lines st'"
    using align_loop_inv[OF loop] align_init_inv by blast
  have cnt: "count_words_inv unescape subs st'"
    using align_loop_count[OF loop] align_init_inv by blast
  show "map e_text items = map strip (take (length items) script_lines)"
    using inv fin
    by (auto simp: align_finish_def align_inv_def take_Suc_conv_app_nth split: if_splits)
  show "length items \<le> length script_lines"
    using inv fin by (auto simp: align_finish_def align_inv_def split: if_splits)
  have "length items \<le> length (filter (nonblank unescape) (take (word_idx st') subs))"
    using cnt fin by (auto simp: align_finish_def count_words_inv_def split: if_splits)
  then show "length items \<le> length (filter (nonblank unescape) subs)"
    using filter_take_le[of "nonblank unescape" "word_idx st'" subs] by linarith
  show "e_end (last items) = snd (last offset)" if warned
    using that fin by (auto simp: align_finish_def split: if_splits)
  show "e_text (last items) = strip (script_lines ! (length items - 1))" if warned
    using that fin inv by (auto simp: align_finish_def align_inv_def split: if_splits)
qed

subsection \<open>Claim C9\<close>

text \<open>
  C9 does not hold of the code.  For the sentence \<open>Bonjour, tout le monde.\<close> the word
  stream is exhausted while the second segment is still unconsumed: the last word closes
  the only block, which carries the first segment \<open>Bonjour,\<close> over the whole utterance;
  nothing is pending after the loop, so the guard of line 260 skips the final append, the
  segment \<open>tout le monde.\<close> is dropped and no warning is logged.  And when words are
  pending after the loop (a word followed by a blank entry, against three segments), the
  block appended carries the current segment only and the two segments after it are
  dropped.
\<close>

theorem C9_remaining_segments_dropped:
  "create_subtitle (\<lambda>s. s) bonjour_subs bonjour_offset bonjour_script_lines
     = Inr (Subtitles [\<lparr>e_idx = 1, e_start = 0, e_end = 12000000, e_text = ustr ''Bonjour,''\<rparr>] False) \<and>
   create_subtitle (\<lambda>s. s) hello_blank [(0, 5000000), (5000000, 6000000)] three_segments
     = Inr (Subtitles [\<lparr>e_idx = 1, e_start = 0, e_end = 6000000, e_text = ustr ''Hello,''\<rparr>] True)"
  by (simp add: align_eval bonjour_subs_def bonjour_offset_def bonjour_script_lines_def
        hello_blank_def three_segments_def)

section \<open>Properties of the scene loop\<close>

lemma resize_keeps_duration:
  "resize_clip_to_aspect c tw th bg = Inr c' \<Longrightarrow> clip_duration c = Some d \<Longrightarrow>
     clip_duration c' = Some d"
  by (auto simp: resize_clip_to_aspect_def Let_def split: option.splits prod.splits if_splits)

lemma resize_keeps_source:
  "resize_clip_to_aspect c tw th bg = Inr c' \<Longrightarrow> clip_source c' = clip_source c"
  by (auto simp: resize_clip_to_aspect_def Let_def split: option.splits prod.splits if_splits)

lemma resize_ok:
  "clip_size c = Some (w, h) \<Longrightarrow> 0 < h \<Longrightarrow> 0 < th \<Longrightarrow>
     \<exists>c'. resize_clip_to_aspect c tw th bg = Inr c'"
  by (auto simp: resize_clip_to_aspect_def Let_def)

lemma resize_result:
  assumes "clip_size c = Some (w, h)" "0 < h" "0 < th" "clip_duration c = Some d"
  shows "\<exists>c'. resize_clip_to_aspect c tw th bg = Inr c' \<and> clip_duration c' = Some d \<and>
              clip_source c' = clip_source c"
proof -
  obtain c' where r: "resize_clip_to_aspect c tw th bg = Inr c'"
    using resize_ok[OF assms(1-3)] by blast
  then show ?thesis
    using resize_keeps_duration[OF r assms(4)] resize_keeps_source[OF r] by blast
qed

lemma error_placeholder_duration:
  "error_placeholder env tw th n d = Inr c \<Longrightarrow> clip_duration c = Some d"
  by (auto simp: error_placeholder_def Let_def split: if_splits)

lemma error_placeholder_total:
  "imagemagick env \<Longrightarrow> \<exists>c. error_placeholder env tw th n d = Inr c"
  by (simp add: error_placeholder_def Let_def)

lemma try_scene_duration:
  "try_scene env args st n v d = (Inr c, ai, nc) \<Longrightarrow> clip_duration c = Some d"
  by (auto simp: try_scene_def Let_def split: prod.splits sum.splits
        intro: resize_keeps_duration[where c = "SetDuration x d" for x])

lemma process_scene_skip: "\<not> all_present sc \<Longrightarrow> process_scene env args st sc = Inr st"
  by (simp add: process_scene_def)

lemma all_present_fields:
  "all_present sc \<Longrightarrow>
     \<exists>n v d. scene_number sc = Some n \<and> visual_type sc = Some v \<and> duration_seconds sc = Some d"
  by (auto simp: all_present_def split: option.splits)

lemma process_scene_appends:
  assumes "all_present sc" "process_scene env args st sc = Inr st'"
  shows "\<exists>c. video_clips st' = video_clips st @ [c] \<and>
             clip_duration c = duration_seconds sc \<and>
             current_video_duration st' = current_video_duration st + declared_duration sc \<and>
             processing_log st' = processing_log st @ [scene_no sc]"
proof -
  from all_present_fields[OF assms(1)] obtain n v d where
    f: "scene_number sc = Some n" "visual_type sc = Some v" "duration_seconds sc = Some d"
    by blast
  obtain r ai nc where t: "try_scene env args st n v d = (r, ai, nc)"
    by (cases "try_scene env args st n v d") auto
  show ?thesis
  proof (cases r)
    case (Inl e)
    then obtain c where c: "error_placeholder env (target_w args) (target_h args) n d = Inr c"
      using assms f t by (auto simp: process_scene_def split: sum.splits)
    then have "clip_duration c = Some d" by (rule error_placeholder_duration)
    then show ?thesis using assms f t Inl c
      by (auto simp: process_scene_def scene_no_def declared_duration_def)
  next
    case (Inr c)
    then have "clip_duration c = Some d" using t try_scene_duration by blast
    then show ?thesis using assms f t Inr
      by (auto simp: process_scene_def scene_no_def declared_duration_def)
  qed
qed

lemma process_scene_total:
  assumes "imagemagick env"
  shows "\<exists>st'. process_scene env args st sc = Inr st'"
proof (cases "all_present sc")
  case False
  then show ?thesis by (simp add: process_scene_skip)
next
  case True
  from all_present_fields[OF True] obtain n v d where
    f: "scene_number sc = Some n" "visual_type sc = Some v" "duration_seconds sc = Some d"
    by blast
  obtain r ai nc where t: "try_scene env args st n v d = (r, ai, nc)"
    by (cases "try_scene env args st n v d") auto
  obtain c where c: "error_placeholder env (target_w args) (target_h args) n d = Inr c"
    using error_placeholder_total[OF assms] by blast
  show ?thesis using True f t c
    by (cases r) (simp_all add: process_scene_def)
qed

lemma process_scenes_total:
  "imagemagick env \<Longrightarrow> \<exists>st'. process_scenes env args scs st = Inr st'"
proof (induction scs arbitrary: st)
  case Nil
  then show ?case by simp
next
  case (Cons sc scs)
  obtain st1 where "process_scene env args st sc = Inr st1"
    using process_scene_total[OF Cons.prems] by blast
  then show ?case using Cons.IH[OF Cons.prems, of st1] by simp
qed

lemma process_scenes_trace:
  "process_scenes env args scs st = Inr st' \<Longrightarrow>
   map clip_duration (video_clips st')
      = map clip_duration (video_clips st) @ map duration_seconds (filter all_present scs) \<and>
   processing_log st' = processing_log st @ map scene_no (filter all_present scs) \<and>
   current_video_duration st'
      = current_video_duration st + sum_list (map declared_duration (filter all_present scs))"
proof (induction scs arbitrary: st)
  case Nil
  then show ?case by simp
next
  case (Cons sc scs)
  from Cons.prems obtain st1 where
    one: "process_scene env args st sc = Inr st1" and
    rest: "process_scenes env args scs st1 = Inr st'"
    by (auto split: sum.splits)
  show ?case
  proof (cases "all_present sc")
    case True
    from process_scene_appends[OF True one] obtain c where
      "video_clips st1 = video_clips st @ [c]"
      "clip_duration c = duration_seconds sc"
      "current_video_duration st1 = current_video_duration st + declared_duration sc"
      "processing_log st1 = processing_log st @ [scene_no sc]"
      by blast
    then show ?thesis using Cons.IH[OF rest] True by simp
  next
    case False
    then have "st1 = st" using one by (simp add: process_scene_skip)
    then show ?thesis using Cons.IH[OF rest] False by simp
  qed
qed

lemma concatenated_duration_sum:
  "map clip_duration cs = map Some ds \<Longrightarrow> concatenated_duration cs = Some (sum_list ds)"
  by (induction cs arbitrary: ds) auto


lemmas compose_eval = process_scene_def try_scene_def load_media_def all_present_def
  resize_clip_to_aspect_def usable_file_def fit_to_duration_def error_placeholder_def
  compose_init_def compose_final_video_def no_media_def tiktok_args_def mk_scene_def
  unreadable_image_def
  DEFAULT_BG_COLOR_def MAX_HOOK_DURATION_def py_int_def Let_def

text \<open>
  When the scene loop runs to its end over scenes that each have a non-zero scene number,
  a non-empty visual type and \<open>duration_seconds > 0\<close>, it has appended exactly one clip per
  scene, each of exactly that scene's declared duration, so the concatenated timeline,
  like \<open>current_video_duration\<close>, lasts the sum of the declared durations; and where
  ImageMagick can be run the loop does run to its end.
\<close>

lemma scene_loop_one_clip_per_scene:
  assumes "\<forall>sc \<in> set scenes. \<exists>n v d. scene_number sc = Some n \<and> n \<noteq> 0 \<and>
              visual_type sc = Some v \<and> v \<noteq> [] \<and> duration_seconds sc = Some d \<and> 0 < d"
  shows "(process_scenes env args scenes compose_init = Inr st \<longrightarrow>
            length (video_clips st) = length scenes \<and>
            map clip_duration (video_clips st) = map duration_seconds scenes \<and>
            concatenated_duration (video_clips st) = Some (sum_list (map declared_duration scenes)) \<and>
            current_video_duration st = sum_list (map declared_duration scenes)) \<and>
         (imagemagick env \<longrightarrow> (\<exists>st. process_scenes env args scenes compose_init = Inr st))"
proof (intro conjI impI)
  assume "imagemagick env"
  then show "\<exists>st. process_scenes env args scenes compose_init = Inr st"
    by (rule process_scenes_total)
next
  assume run: "process_scenes env args scenes compose_init = Inr st"
  have all: "\<forall>sc \<in> set scenes. all_present sc"
    using assms by (auto simp: all_present_def)
  then have f: "filter all_present scenes = scenes" by simp
  have d: "map duration_seconds scenes = map Some (map declared_duration scenes)"
    using assms by (auto simp: declared_duration_def)
  note tr = process_scenes_trace[OF run, unfolded f]
  show durs: "map clip_duration (video_clips st) = map duration_seconds scenes"
    using tr by (simp add: compose_init_def)
  then show "length (video_clips st) = length scenes"
    using map_eq_imp_length_eq by fastforce
  show "concatenated_duration (video_clips st) = Some (sum_list (map declared_duration scenes))"
    using durs d by (intro concatenated_duration_sum) simp
  show "current_video_duration st = sum_list (map declared_duration scenes)"
    using tr by (simp add: compose_init_def)
qed

subsection \<open>Claim C1\<close>

text \<open>
  C1 does not hold of the code.  The image of an \<open>ai_image\<close> scene cannot be decoded, so
  \<open>ImageClip\<close> raises inside the scene's \<open>try\<close> block; the \<open>except\<close> clause then builds the
  error placeholder with a \<open>TextClip\<close>, which raises in turn because ImageMagick is not
  where line 25 says; that exception is raised outside any \<open>try\<close>, leaves the loop and
  reaches the caller of \<open>compose_final_video\<close>: no clip is produced for the scene and the
  scene after it is never looked at.  On a machine where ImageMagick runs, the same
  project yields the red error placeholder of 5 s followed by the black placeholder of
  3 s.
\<close>

theorem C1_error_escapes_scene_loop:
  "process_scene unreadable_image tiktok_args compose_init (mk_scene 1 ''ai_image'' 5)
     = Inl (OSError ''ImageMagick'') \<and>
   compose_final_video unreadable_image tiktok_args
       [mk_scene 1 ''ai_image'' 5, mk_scene 2 ''stock_video'' 3]
     = Inl (OSError ''ImageMagick'') \<and>
   compose_final_video (unreadable_image\<lparr>imagemagick := True\<rparr>) tiktok_args
       [mk_scene 1 ''ai_image'' 5, mk_scene 2 ''stock_video'' 3]
     = Inr (Some
         [SetDuration (CompositeVideoClip
             [ColorClip 1080 1920 (255, 0, 0) 5,
              SetPositionCenter (SetDuration (TextClip (''Error'' @ [CHR 0x0A] @ ''Scene 1'')) 5)]
             1080 1920) 5,
          ResizeWidth (SetDuration (ColorClip 1080 1920 (0, 0, 0) 3) 3) 1080])"
  by (simp add: compose_eval str_int_def str_nat.simps digit_char_def)

subsection \<open>Claim C6\<close>

text \<open>
  C6, as stated, fails: given scene 2 (5 s) before scene 1 (3 s), the loop processes
  scene 2 first and the timeline starts with the five-second clip.
\<close>

theorem C6_counterexample:
  "process_scenes no_media tiktok_args
       [mk_scene 2 ''ai_image'' 5, mk_scene 1 ''ai_image'' 3] compose_init
     = Inr \<lparr>video_clips = [ResizeWidth (SetDuration (ColorClip 1080 1920 (0, 0, 0) 5) 5) 1080,
                            ResizeWidth (SetDuration (ColorClip 1080 1920 (0, 0, 0) 3) 3) 1080],
            ai_image_index = 0, current_video_duration = 8, error_occurred = False,
            n_choices = 0, processing_log = [2, 1]\<rparr>"
  by (simp add: compose_eval)

text \<open>
  C6, amended: the scenes are processed, and their clips concatenated, in the order in
  which they stand in the input list (scenes that line 187 skips left out); the order is
  ascending in \<open>scene_number\<close> when the input list is.  This is so of every run of the scene
  loop that reaches its end, and the loop reaches its end wherever ImageMagick can be run.
\<close>

theorem C6_scenes_in_input_order:
  "(\<forall>st. process_scenes env args scenes compose_init = Inr st \<longrightarrow>
      processing_log st = map scene_no (filter all_present scenes) \<and>
      map clip_duration (video_clips st) = map duration_seconds (filter all_present scenes) \<and>
      (sorted (map scene_no (filter all_present scenes)) \<longrightarrow> sorted (processing_log st))) \<and>
   (imagemagick env \<longrightarrow> (\<exists>st. process_scenes env args scenes compose_init = Inr st))"
proof (intro conjI allI impI)
  assume "imagemagick env"
  then show "\<exists>st. process_scenes env args scenes compose_init = Inr st"
    by (rule process_scenes_total)
next
  fix st assume run: "process_scenes env args scenes compose_init = Inr st"
  note tr = process_scenes_trace[OF run]
  show log: "processing_log st = map scene_no (filter all_present scenes)"
    using tr by (simp add: compose_init_def)
  show "map clip_duration (video_clips st) = map duration_seconds (filter all_present scenes)"
    using tr by (simp add: compose_init_def)
  show "sorted (processing_log st)" if "sorted (map scene_no (filter all_present scenes))"
    using that log by simp
qed

text \<open>Witness for C6: scenes 1 and 2 given in ascending order.\<close>

theorem C6_scenes_in_input_order_witness:
  "imagemagick no_media \<and>
   sorted (map scene_no (filter all_present [mk_scene 1 ''ai_image'' 5, mk_scene 2 ''stock_video'' 3])) \<and>
   (\<exists>st. process_scenes no_media tiktok_args
            [mk_scene 1 ''ai_image'' 5, mk_scene 2 ''stock_video'' 3] compose_init = Inr st \<and>
         processing_log st = [1, 2] \<and>
         map clip_duration (video_clips st) = [Some 5, Some 3] \<and>
         sorted (processing_log st))"
proof -
  let ?scs = "[mk_scene 1 ''ai_image'' 5, mk_scene 2 ''stock_video'' 3]"
  have m: "imagemagick no_media" by (simp add: no_media_def)
  have h: "map scene_no (filter all_present ?scs) = [1, 2]"
    by (simp add: mk_scene_def all_present_def scene_no_def)
  have d: "map duration_seconds (filter all_present ?scs) = [Some 5, Some 3]"
    by (simp add: mk_scene_def all_present_def)
  from C6_scenes_in_input_order[of no_media tiktok_args ?scs] m
  obtain st where st: "process_scenes no_media tiktok_args ?scs compose_init = Inr st"
    by blast
  with C6_scenes_in_input_order[of no_media tiktok_args ?scs]
  have "processing_log st = map scene_no (filter all_present ?scs) \<and>
        map clip_duration (video_clips st) = map duration_seconds (filter all_present ?scs)"
    by blast
  then show ?thesis using m h d st by auto
qed

subsection \<open>Claim C4\<close>

text \<open>
  C4: when the resolver handles a \<open>stock_video\<close> scene whose pool is not empty, or a
  \<open>product_video\<close> scene whose file exists, and the asset picked loads with duration \<open>a\<close>:
  if \<open>a\<close> is below the scene's \<open>duration_seconds\<close> the clip is the asset looped to
  \<open>duration_seconds\<close>, otherwise the asset trimmed to \<open>[0, duration_seconds]\<close>; in both cases
  the clip lasts exactly \<open>duration_seconds\<close>.  When the asset's frame and the target have
  a height, the scene's \<open>try\<close> block ends normally and the processed clip shows that asset
  for exactly \<open>duration_seconds\<close>.
\<close>

theorem C4_trim_or_loop:
  assumes "0 < d" and "video_file env p = Some (a, w, h)"
  shows "(stock_videos_map args n = Some ps \<and> ps \<noteq> [] \<and> choice env k ps = p \<longrightarrow>
            load_media env args i k n ''stock_video'' d =
              (Inr (Some (WithoutAudio (if a < d then Loop (VideoFileClip p a w h) d
                                        else Subclip (VideoFileClip p a w h) 0 d))), i, k + 1)) \<and>
         (main_product_video_path args = Some p \<and> p \<noteq> [] \<and> is_file env p \<longrightarrow>
            load_media env args i k n ''product_video'' d =
              (Inr (Some (WithoutAudio (if a < d then Loop (VideoFileClip p a w h) d
                                        else Subclip (VideoFileClip p a w h) 0 d))), i, k)) \<and>
         clip_duration (WithoutAudio (if a < d then Loop (VideoFileClip p a w h) d
                                      else Subclip (VideoFileClip p a w h) 0 d)) = Some d \<and>
         (stock_videos_map args n = Some ps \<and> ps \<noteq> [] \<and> choice env (n_choices st) ps = p \<and>
          0 < h \<and> 0 < target_h args \<longrightarrow>
            (\<exists>c. try_scene env args st n ''stock_video'' d
                    = (Inr c, ai_image_index st, n_choices st + 1) \<and>
                 clip_duration c = Some d \<and> clip_source c = Some p)) \<and>
         (main_product_video_path args = Some p \<and> p \<noteq> [] \<and> is_file env p \<and>
          0 < h \<and> 0 < target_h args \<longrightarrow>
            (\<exists>c. try_scene env args st n ''product_video'' d
                    = (Inr c, ai_image_index st, n_choices st) \<and>
                 clip_duration c = Some d \<and> clip_source c = Some p))"
proof -
  let ?v = "VideoFileClip p a w h"
  let ?raw = "WithoutAudio (if a < d then Loop ?v d else Subclip ?v 0 d)"
  have stock: "load_media env args i k n ''stock_video'' d = (Inr (Some ?raw), i, k + 1)"
    if "stock_videos_map args n = Some ps \<and> ps \<noteq> [] \<and> choice env k ps = p" for i k
    using that assms(2) by (auto simp: load_media_def fit_to_duration_def Let_def)
  have prod: "load_media env args i k n ''product_video'' d = (Inr (Some ?raw), i, k)"
    if "main_product_video_path args = Some p \<and> p \<noteq> [] \<and> is_file env p" for i k
    using that assms(2) by (auto simp: load_media_def usable_file_def fit_to_duration_def Let_def)
  have dur: "clip_duration ?raw = Some d" by simp
  have framed: "\<exists>c. resize_clip_to_aspect (SetDuration ?raw d) (target_w args) (target_h args)
                        DEFAULT_BG_COLOR = Inr c \<and> clip_duration c = Some d \<and> clip_source c = Some p"
    if "0 < h \<and> 0 < target_h args"
  proof -
    have "clip_size (SetDuration ?raw d) = Some (w, h)" by simp
    moreover have "clip_source (SetDuration ?raw d) = Some p" by simp
    moreover have "clip_duration (SetDuration ?raw d) = Some d" by simp
    ultimately show ?thesis
      using resize_result[of "SetDuration ?raw d" w h "target_h args" d "target_w args"
              DEFAULT_BG_COLOR] that
      by metis
  qed
  have ts: "\<exists>c. try_scene env args st n ''stock_video'' d
                    = (Inr c, ai_image_index st, n_choices st + 1) \<and>
                 clip_duration c = Some d \<and> clip_source c = Some p"
    if "stock_videos_map args n = Some ps \<and> ps \<noteq> [] \<and> choice env (n_choices st) ps = p \<and>
          0 < h \<and> 0 < target_h args"
    using stock[of "n_choices st" "ai_image_index st"] framed that
    by (auto simp: try_scene_def Let_def)
  have tp: "\<exists>c. try_scene env args st n ''product_video'' d
                    = (Inr c, ai_image_index st, n_choices st) \<and>
                 clip_duration c = Some d \<and> clip_source c = Some p"
    if "main_product_video_path args = Some p \<and> p \<noteq> [] \<and> is_file env p \<and>
          0 < h \<and> 0 < target_h args"
    using prod[of "ai_image_index st" "n_choices st"] framed that
    by (auto simp: try_scene_def Let_def)
  show ?thesis using stock prod dur ts tp by blast
qed

text \<open>Witness for C4: a scene of 8 s filled from an asset of 5 s is the asset looped to 8 s.\<close>

theorem C4_trim_or_loop_witness:
  "load_media five_second_stock stock_for_scene_two 0 0 2 ''stock_video'' 8 =
     (Inr (Some (WithoutAudio (Loop (VideoFileClip ''stock1.mp4'' 5 480 854) 8))), 0, 1) \<and>
   clip_duration (WithoutAudio (Loop (VideoFileClip ''stock1.mp4'' 5 480 854) 8)) = Some 8"
proof -
  have h1: "(0::rat) < 8" by simp
  have h2: "video_file five_second_stock ''stock1.mp4'' = Some (5, 480, 854)"
    by (simp add: five_second_stock_def no_media_def)
  have h3: "stock_videos_map stock_for_scene_two 2 = Some [''stock1.mp4''] \<and>
            [''stock1.mp4''] \<noteq> [] \<and> choice five_second_stock 0 [''stock1.mp4''] = ''stock1.mp4''"
    by (simp add: stock_for_scene_two_def tiktok_args_def five_second_stock_def no_media_def)
  from C4_trim_or_loop[OF h1 h2, where args = stock_for_scene_two and n = 2
         and ps = "[''stock1.mp4'']" and k = 0 and i = 0] h3
  show ?thesis by simp
qed

subsection \<open>Claim C5\<close>

text \<open>
  C5: with the ten images \<open>1.jpeg\<close> to \<open>10.jpeg\<close> and ten \<open>ai_image\<close> scenes, the scene loop
  runs to its end and the second scene receives \<open>10.jpeg\<close>, the third \<open>2.jpeg\<close>: \<open>sorted\<close>
  orders the paths as strings, not by their numbers.  With an empty pool an \<open>ai_image\<close>
  scene of 5 s yields the black placeholder of 5 s and nothing is raised.
\<close>

theorem C5_images_in_name_order:
  "(\<exists>st. process_scenes ten_images tiktok_args ten_image_scenes compose_init = Inr st \<and>
      map clip_source (video_clips st)
        = [Some ''1.jpeg'', Some ''10.jpeg'', Some ''2.jpeg'', Some ''3.jpeg'', Some ''4.jpeg'',
           Some ''5.jpeg'', Some ''6.jpeg'', Some ''7.jpeg'', Some ''8.jpeg'', Some ''9.jpeg'']) \<and>
   process_scenes no_media tiktok_args [mk_scene 3 ''ai_image'' 5] compose_init
     = Inr \<lparr>video_clips = [ResizeWidth (SetDuration (ColorClip 1080 1920 (0, 0, 0) 5) 5) 1080],
            ai_image_index = 0, current_video_duration = 5, error_occurred = False,
            n_choices = 0, processing_log = [3]\<rparr>"
  by (simp add: compose_eval ten_images_def ten_image_scenes_def)

section \<open>Malformed timed words\<close>

lemma timed_word_of_clamped: "sw_start (timed_word_of unescape sub off) \<le> sw_end (timed_word_of unescape sub off)"
  by (auto simp: timed_word_of_def Let_def intro: round3_mono)

lemma submaker_words_clamped:
  "\<forall>w \<in> set (get_timed_words_from_submaker unescape subs offset). sw_start w \<le> sw_end w"
  by (auto simp: get_timed_words_from_submaker_def timed_word_of_clamped)

subsection \<open>Claim C8\<close>






end
